theory Spec2Isabelle
  imports Main "HOL-Library.Word" "HOL-Library.Sublist"
begin

unbundle bit_operations_syntax

section \<open>The MySQL migration planner of atlas (sql/mysql/migrate.go)\<close>

text \<open>
  The planner turns a list of schema changes into a \<open>migrate.Plan\<close>: an ordered list of
  SQL statements, each with an optional reverse statement. Go functions become HOL
  functions. A Go function with a pointer receiver \<open>s *state\<close> that returns \<open>error\<close>
  becomes a function from the state to a pair of an optional error and the state after the
  call, so that what the call wrote before failing stays visible. A run-time panic is an
  error value of its own. Tables are referenced by pointer in the source and the planner
  writes to them, so the tables live in a store that the state carries. Columns, indexes
  and foreign keys are never written to and are values. \<open>ApplyChanges\<close> (a call into
  \<open>sqlx\<close>) and \<open>unquote\<close> take no part in planning and are left out.
\<close>

subsection \<open>Errors\<close>

datatype error = Error string | Panic string

subsection \<open>The schema object graph (package schema)\<close>

text \<open>A \<open>*schema.Table\<close>: the address of a table in the store.\<close>

type_synonym tref = nat

text \<open>
  \<open>schema.Attr\<close> values that the planner inspects, with the two driver attributes
  \<open>AutoIncrement\<close> (field \<open>V int64\<close>) and \<open>OnUpdate\<close>; \<open>OtherAttr\<close> is any attribute of
  a type that no type switch of the planner names.
\<close>

datatype Attr =
    Charset string
  | Collation string
  | Comment string
  | Check string
  | OnUpdate string
  | AutoIncrement "64 word"
  | OtherAttr string

text \<open>\<open>schema.Clause\<close> values carried in the \<open>Extra\<close> field of a change.\<close>

datatype Clause = IfExists | IfNotExists | OtherClause string

text \<open>\<open>schema.Type\<close>: the column types; the payload is the field \<open>T\<close>.\<close>

datatype Type =
    BoolType string
  | IntegerType string
  | DecimalType string
  | FloatType string
  | StringType string
  | TimeType string
  | JSONType string
  | OtherType string

text \<open>\<open>schema.Expr\<close>: a column default is a literal or a raw expression.\<close>

datatype Expr = Literal string | RawExpr string

record ColumnType =
  Type_of :: Type
  Null :: bool

record Column =
  Column_Name :: string
  Column_Type :: ColumnType
  Column_Default :: "Expr option"
  Column_Attrs :: "Attr list"

text \<open>
  An index part covers a column (\<open>C\<close>) or a raw expression (\<open>X\<close>, the text of the
  \<open>*schema.RawExpr\<close>).
\<close>

record IndexPart =
  Part_C :: "Column option"
  Part_X :: "string option"
  Part_Attrs :: "Attr list"

record Index =
  Index_Name :: string
  Index_Unique :: bool
  Index_Table :: "tref option"
  Index_Attrs :: "Attr list"
  Index_Parts :: "IndexPart list"

record ForeignKey =
  Symbol :: string
  FK_Columns :: "Column list"
  RefTable :: tref
  RefColumns :: "Column list"
  FK_OnUpdate :: string
  FK_OnDelete :: string

record Schema =
  Schema_Name :: string
  Schema_Attrs :: "Attr list"

record Table =
  Table_Name :: string
  Table_Schema :: "Schema option"
  Table_Columns :: "Column list"
  PrimaryKey :: "Index option"
  Table_Indexes :: "Index list"
  Table_ForeignKeys :: "ForeignKey list"
  Table_Attrs :: "Attr list"

text \<open>\<open>schema.ChangeKind\<close> is a \<open>uint\<close> bitmask.\<close>

type_synonym ChangeKind = "64 word"

text \<open>
  \<open>schema.Change\<close>: the tagged union of changes. A \<open>ModifyTable\<close> carries the list of
  edits of one table; the \<open>Modify\<close> variants carry the \<open>From\<close> and \<open>To\<close> snapshots and
  the mask of what changed.
\<close>

datatype Change =
    AddSchema Schema "Clause list"
  | DropSchema Schema "Clause list"
  | AddTable tref "Clause list"
  | DropTable tref "Clause list"
  | ModifyTable tref "Change list"
  | AddColumn Column
  | ModifyColumn Column Column ChangeKind
  | DropColumn Column
  | AddIndex Index
  | ModifyIndex Index Index ChangeKind
  | DropIndex Index
  | AddForeignKey ForeignKey
  | ModifyForeignKey ForeignKey ForeignKey ChangeKind
  | DropForeignKey ForeignKey
  | AddAttr Attr
  | ModifyAttr Attr Attr
  | DropAttr Attr

text \<open>The dynamic type of a change, as \<open>fmt\<close> prints it for the verb \<open>%T\<close>.\<close>

fun typeName :: "Change \<Rightarrow> string" where
  "typeName (AddSchema _ _) = ''*schema.AddSchema''"
| "typeName (DropSchema _ _) = ''*schema.DropSchema''"
| "typeName (AddTable _ _) = ''*schema.AddTable''"
| "typeName (DropTable _ _) = ''*schema.DropTable''"
| "typeName (ModifyTable _ _) = ''*schema.ModifyTable''"
| "typeName (AddColumn _) = ''*schema.AddColumn''"
| "typeName (ModifyColumn _ _ _) = ''*schema.ModifyColumn''"
| "typeName (DropColumn _) = ''*schema.DropColumn''"
| "typeName (AddIndex _) = ''*schema.AddIndex''"
| "typeName (ModifyIndex _ _ _) = ''*schema.ModifyIndex''"
| "typeName (DropIndex _) = ''*schema.DropIndex''"
| "typeName (AddForeignKey _) = ''*schema.AddForeignKey''"
| "typeName (ModifyForeignKey _ _ _) = ''*schema.ModifyForeignKey''"
| "typeName (DropForeignKey _) = ''*schema.DropForeignKey''"
| "typeName (AddAttr _) = ''*schema.AddAttr''"
| "typeName (ModifyAttr _ _) = ''*schema.ModifyAttr''"
| "typeName (DropAttr _) = ''*schema.DropAttr''"

subsection \<open>The migration plan (package migrate)\<close>

record migrate_Change =
  Cmd :: string
  Source :: Change
  Reverse :: string
  Comment_of :: string

record migrate_Plan =
  Name :: string
  Reversible :: bool
  Transactional :: bool
  Changes :: "migrate_Change list"

subsection \<open>What the planner uses from outside the file\<close>

text \<open>
  The planner calls helpers of its own package, of \<open>sql/internal/sqlx\<close>, of
  \<open>sql/schema\<close> and of the Go library that are declared in other files. They are taken
  as parameters, collected in one record, so that every result below holds whatever
  they compute.
  \<^item> \<open>DetachCycles\<close>: \<open>sqlx.DetachCycles\<close>, the ordering of the table-level changes, or
    an error;
  \<^item> \<open>IsQuoted s qs\<close>: \<open>sqlx.IsQuoted\<close>, whether \<open>s\<close> is quoted with one of \<open>qs\<close>;
  \<^item> \<open>strconv_Quote\<close>: \<open>strconv.Quote\<close>; \<open>strings_ToLower\<close>: \<open>strings.ToLower\<close>;
  \<^item> \<open>hasNumericDefault\<close>, \<open>isHex\<close>, \<open>currentTS\<close>, \<open>mustFormat\<close>: helpers and a constant
    of package \<open>mysql\<close>; \<open>mustFormat\<close> is taken on the types it formats;
  \<^item> \<open>ChangeRefTable\<close>, \<open>ChangeRefColumn\<close>: two bits of \<open>schema.ChangeKind\<close>.
\<close>

record deps =
  DetachCycles :: "Change list \<Rightarrow> error + Change list"
  IsQuoted :: "string \<Rightarrow> char list \<Rightarrow> bool"
  strconv_Quote :: "string \<Rightarrow> string"
  strings_ToLower :: "string \<Rightarrow> string"
  hasNumericDefault :: "Type \<Rightarrow> bool"
  isHex :: "string \<Rightarrow> bool"
  currentTS :: string
  mustFormat :: "Type \<Rightarrow> string"
  ChangeRefTable :: ChangeKind
  ChangeRefColumn :: ChangeKind

text \<open>
  The embedded \<open>conn\<close> of the driver: whether the server is MariaDB (\<open>mariadb()\<close>),
  the version comparison \<open>ltV\<close>, and the default collation.
\<close>

record conn =
  mariadb :: bool
  ltV :: "string \<Rightarrow> bool"
  collate :: string

text \<open>
  The planning state: \<open>state\<close> embeds \<open>conn\<close> and \<open>migrate.Plan\<close>; \<open>heap\<close> is the
  store of the tables that the changes point to.
\<close>

record state =
  conn_of :: conn
  Plan :: migrate_Plan
  heap :: "tref \<Rightarrow> Table"

subsection \<open>Strings\<close>

text \<open>\<open>strings.HasPrefix\<close>, \<open>strings.HasSuffix\<close> and \<open>strings.Join\<close> on byte strings.\<close>

definition HasPrefix :: "string \<Rightarrow> string \<Rightarrow> bool" where
  "HasPrefix s p = (length p \<le> length s \<and> take (length p) s = p)"

definition HasSuffix :: "string \<Rightarrow> string \<Rightarrow> bool" where
  "HasSuffix s p = (length p \<le> length s \<and> drop (length s - length p) s = p)"

fun Join :: "string list \<Rightarrow> string \<Rightarrow> string" where
  "Join [] sep = []"
| "Join [x] sep = x"
| "Join (x # y # ys) sep = x @ sep @ Join (y # ys) sep"

text \<open>
  \<open>strings.TrimSpace\<close>, on the ASCII white space (tab, line feed, vertical tab, form
  feed, carriage return, space).
\<close>

definition isSpace :: "char \<Rightarrow> bool" where
  "isSpace c = (c = CHR 0x09 \<or> c = CHR 0x0A \<or> c = CHR 0x0B \<or> c = CHR 0x0C
     \<or> c = CHR 0x0D \<or> c = CHR '' '')"

definition TrimSpace :: "string \<Rightarrow> string" where
  "TrimSpace s = rev (dropWhile isSpace (rev (dropWhile isSpace s)))"

text \<open>\<open>strconv.FormatInt(v, 10)\<close> of an \<open>int64\<close>.\<close>

definition digit :: "nat \<Rightarrow> char" where
  "digit n = char_of (48 + n)"

fun digits :: "nat \<Rightarrow> nat \<Rightarrow> string" where
  "digits 0 n = []"
| "digits (Suc fuel) n =
     (if n < 10 then [digit n] else digits fuel (n div 10) @ [digit (n mod 10)])"

definition FormatInt :: "64 word \<Rightarrow> string" where
  "FormatInt v =
     (if sint v < 0 then CHR ''-'' # digits 20 (nat (- sint v)) else digits 20 (nat (sint v)))"

subsection \<open>The statement builder (sqlx.Builder)\<close>

text \<open>
  Modelled from the spec: \<open>sqlx.Builder\<close> and its methods (package
  \<open>sql/internal/sqlx\<close>, declared outside this file): an append-only accumulator of
  the text of one statement with the identifier quote of the dialect. A phrase and an
  identifier are followed by one space; a comma and a closing parenthesis take the place
  of a trailing space; \<open>String\<close> strips the padding.
\<close>

record Builder =
  Buffer :: string
  QuoteChar :: char

definition WriteString :: "Builder \<Rightarrow> string \<Rightarrow> Builder" where
  "WriteString b s = b\<lparr>Buffer := Buffer b @ s\<rparr>"

definition WriteByte :: "Builder \<Rightarrow> char \<Rightarrow> Builder" where
  "WriteByte b c = b\<lparr>Buffer := Buffer b @ [c]\<rparr>"

definition lastByte :: "Builder \<Rightarrow> char" where
  "lastByte b = (if Buffer b = [] then CHR 0x00 else last (Buffer b))"

definition rewriteLastByte :: "Builder \<Rightarrow> char \<Rightarrow> Builder" where
  "rewriteLastByte b c =
     (if Buffer b = [] then b else b\<lparr>Buffer := butlast (Buffer b) @ [c]\<rparr>)"

text \<open>\<open>P\<close> writes the phrases, each followed by a space; an empty phrase is skipped.\<close>

fun Builder_P :: "Builder \<Rightarrow> string list \<Rightarrow> Builder" where
  "Builder_P b [] = b"
| "Builder_P b (p # ps) =
     (if p = [] then Builder_P b ps
      else let b1 = (if Buffer b \<noteq> [] \<and> lastByte b \<noteq> CHR '' '' then WriteByte b (CHR '' '')
                     else b);
               b2 = WriteString b1 p;
               b3 = (if last p \<noteq> CHR '' '' then WriteByte b2 (CHR '' '') else b2)
           in Builder_P b3 ps)"

text \<open>\<open>Ident\<close> writes a quoted identifier; an empty name writes nothing.\<close>

definition Builder_Ident :: "Builder \<Rightarrow> string \<Rightarrow> Builder" where
  "Builder_Ident b s =
     (if s \<noteq> [] then WriteByte (WriteByte (WriteString (WriteByte b (QuoteChar b)) s)
                        (QuoteChar b)) (CHR '' '')
      else b)"

text \<open>\<open>Table\<close> writes the table name, after the name of its schema when it has one.\<close>

definition Builder_Table :: "Builder \<Rightarrow> Table \<Rightarrow> Builder" where
  "Builder_Table b t =
     (let b1 = (case Table_Schema t of
                  None \<Rightarrow> b
                | Some sc \<Rightarrow>
                    if Schema_Name sc \<noteq> []
                    then rewriteLastByte (Builder_Ident b (Schema_Name sc)) (CHR ''.'')
                    else b)
      in Builder_Ident b1 (Table_Name t))"

definition Builder_Comma :: "Builder \<Rightarrow> Builder" where
  "Builder_Comma b =
     (if lastByte b = CHR '' '' then WriteByte (rewriteLastByte b (CHR '','')) (CHR '' '')
      else WriteString b '', '')"

text \<open>
  \<open>Wrap\<close> and \<open>MapComma\<close> take a closure. The closures of the planner also write to
  what they capture (the reverse builder, the error list, the tables), so a closure is a
  function of the builder and of the captured variables, returning both.
\<close>

definition Builder_Wrap ::
  "Builder \<Rightarrow> (Builder \<Rightarrow> 'a \<Rightarrow> Builder \<times> 'a) \<Rightarrow> 'a \<Rightarrow> Builder \<times> 'a" where
  "Builder_Wrap b f a =
     (let (b1, a1) = f (WriteByte b (CHR ''('')) a
      in (if lastByte b1 \<noteq> CHR '' '' then WriteByte b1 (CHR '')'')
          else rewriteLastByte b1 (CHR '')''), a1))"

text \<open>The loop of \<open>MapComma\<close> from index \<open>i\<close> on: a comma before every element but the first.\<close>

fun MapComma_loop ::
  "nat \<Rightarrow> 'x list \<Rightarrow> ('x \<Rightarrow> Builder \<Rightarrow> 'a \<Rightarrow> Builder \<times> 'a) \<Rightarrow> Builder \<Rightarrow> 'a \<Rightarrow> Builder \<times> 'a" where
  "MapComma_loop i [] f b a = (b, a)"
| "MapComma_loop i (x # xs) f b a =
     (let b0 = (if i > 0 then Builder_Comma b else b);
          (b1, a1) = f x b0 a
      in MapComma_loop (Suc i) xs f b1 a1)"

definition Builder_MapComma ::
  "Builder \<Rightarrow> 'x list \<Rightarrow> ('x \<Rightarrow> Builder \<Rightarrow> 'a \<Rightarrow> Builder \<times> 'a) \<Rightarrow> 'a \<Rightarrow> Builder \<times> 'a" where
  "Builder_MapComma b xs f a = MapComma_loop 0 xs f b a"

text \<open>A closure that captures nothing it writes to.\<close>

definition pure_closure :: "(Builder \<Rightarrow> Builder) \<Rightarrow> Builder \<Rightarrow> unit \<Rightarrow> Builder \<times> unit" where
  "pure_closure f b u = (f b, u)"

definition Builder_Clone :: "Builder \<Rightarrow> Builder" where
  "Builder_Clone b = \<lparr>Buffer = Buffer b, QuoteChar = QuoteChar b\<rparr>"

definition Builder_String :: "Builder \<Rightarrow> string" where
  "Builder_String b = TrimSpace (Buffer b)"

text \<open>\<open>Build\<close> instantiates a builder with the MySQL quote and writes the phrase.\<close>

definition Build :: "string \<Rightarrow> Builder" where
  "Build phrase = Builder_P \<lparr>Buffer = [], QuoteChar = CHR 0x60\<rparr> [phrase]"

subsection \<open>Looking an attribute up by its type (sqlx.Has)\<close>

text \<open>
  Modelled from the spec: \<open>sqlx.Has\<close> (package \<open>sql/internal/sqlx\<close>, declared outside
  this file), at the types the planner calls it with: whether the list holds an element
  of the type of the target, and the first such element, copied into the target.
\<close>

fun Has_IfExists :: "Clause list \<Rightarrow> bool" where
  "Has_IfExists [] = False"
| "Has_IfExists (c # cs) = (case c of IfExists \<Rightarrow> True | _ \<Rightarrow> Has_IfExists cs)"

fun Has_IfNotExists :: "Clause list \<Rightarrow> bool" where
  "Has_IfNotExists [] = False"
| "Has_IfNotExists (c # cs) = (case c of IfNotExists \<Rightarrow> True | _ \<Rightarrow> Has_IfNotExists cs)"

fun Has_Charset :: "Attr list \<Rightarrow> string option" where
  "Has_Charset [] = None"
| "Has_Charset (a # as) = (case a of Charset v \<Rightarrow> Some v | _ \<Rightarrow> Has_Charset as)"

fun Has_Collation :: "Attr list \<Rightarrow> string option" where
  "Has_Collation [] = None"
| "Has_Collation (a # as) = (case a of Collation v \<Rightarrow> Some v | _ \<Rightarrow> Has_Collation as)"

fun Has_Check :: "Attr list \<Rightarrow> bool" where
  "Has_Check [] = False"
| "Has_Check (a # as) = (case a of Check _ \<Rightarrow> True | _ \<Rightarrow> Has_Check as)"

fun Has_AutoIncrement :: "Attr list \<Rightarrow> bool" where
  "Has_AutoIncrement [] = False"
| "Has_AutoIncrement (a # as) = (case a of AutoIncrement _ \<Rightarrow> True | _ \<Rightarrow> Has_AutoIncrement as)"

text \<open>
  Modelled from the spec: \<open>(schema.ChangeKind).Is\<close> (package \<open>sql/schema\<close>, declared
  outside this file): whether the mask \<open>k\<close> of what changed meets the mask \<open>c\<close>.
\<close>

definition ChangeKind_Is :: "ChangeKind \<Rightarrow> ChangeKind \<Rightarrow> bool" where
  "ChangeKind_Is k c = (k = c \<or> k AND c \<noteq> 0)"

subsection \<open>Quoting and defaults\<close>

definition quote :: "deps \<Rightarrow> string \<Rightarrow> string" where
  "quote d s = (if IsQuoted d s [CHR 0x22, CHR 0x27] then s else strconv_Quote d s)"

text \<open>\<open>columnDefault\<close> writes the default value of the column to the builder.\<close>

definition columnDefault :: "deps \<Rightarrow> Builder \<Rightarrow> Column \<Rightarrow> Builder" where
  "columnDefault d b c =
     (case Column_Default c of
        Some (Literal x) \<Rightarrow>
          (let v = x;
               v = (if \<not> hasNumericDefault d (Type_of (Column_Type c)) \<and> \<not> isHex d v
                    then quote d v else v)
           in Builder_P b [''DEFAULT'', v])
      | Some (RawExpr x) \<Rightarrow>
          (let v = x;
               t = Type_of (Column_Type c);
               v = (if isHex d v \<or> hasNumericDefault d t
                       \<or> (HasPrefix v ''('' \<and> HasSuffix v '')'')
                    then v
                    else if \<not> (case t of TimeType _ \<Rightarrow> True | _ \<Rightarrow> False)
                             \<or> \<not> HasPrefix (strings_ToLower d v) (currentTS d)
                         then quote d v else v)
           in Builder_P b [''DEFAULT'', v])
      | None \<Rightarrow> b)"

subsection \<open>Attributes\<close>

text \<open>\<open>attr\<close>: the attributes of a column or an index that have a clause.\<close>

fun attr :: "deps \<Rightarrow> Builder \<Rightarrow> Attr list \<Rightarrow> Builder" where
  "attr d b [] = b"
| "attr d b (a # as) =
     (case a of
        Collation v \<Rightarrow> attr d (Builder_P b [''COLLATE'', v]) as
      | Comment text \<Rightarrow> attr d (Builder_P b [''COMMENT'', quote d text]) as
      | _ \<Rightarrow> attr d b as)"

text \<open>
  \<open>tableAttr\<close> writes the table attributes; it returns at the first \<open>AutoIncrement\<close>
  without a value, with what it wrote so far left in the builder.
\<close>

fun tableAttr :: "deps \<Rightarrow> Builder \<Rightarrow> Attr list \<Rightarrow> error option \<times> Builder" where
  "tableAttr d b [] = (None, b)"
| "tableAttr d b (a # as) =
     (case a of
        AutoIncrement v \<Rightarrow>
          if v = 0 then (Some (Error ''missing value for table option AUTO_INCREMENT''), b)
          else tableAttr d (Builder_P b [''AUTO_INCREMENT'', FormatInt v]) as
      | Charset v \<Rightarrow> tableAttr d (Builder_P b [''CHARACTER SET'', v]) as
      | Collation v \<Rightarrow> tableAttr d (Builder_P b [''COLLATE'', v]) as
      | Comment text \<Rightarrow> tableAttr d (Builder_P b [''COMMENT'', quote d text]) as
      | _ \<Rightarrow> tableAttr d b as)"

text \<open>
  \<open>collation\<close>: the collation of the table, from its attributes, from those of its
  schema, or the default of the connection.
\<close>

definition collation :: "state \<Rightarrow> Table \<Rightarrow> string" where
  "collation s t =
     (case Has_Collation (Table_Attrs t) of
        Some v \<Rightarrow> v
      | None \<Rightarrow>
          (case Table_Schema t of
             None \<Rightarrow> collate (conn_of s)
           | Some sc \<Rightarrow>
               (case Has_Collation (Schema_Attrs sc) of
                  Some v \<Rightarrow> v
                | None \<Rightarrow> collate (conn_of s))))"

subsection \<open>Columns, index parts and foreign keys\<close>

definition MapComma_pure :: "Builder \<Rightarrow> 'x list \<Rightarrow> ('x \<Rightarrow> Builder \<Rightarrow> Builder) \<Rightarrow> Builder" where
  "MapComma_pure b xs f = fst (Builder_MapComma b xs (\<lambda>x. pure_closure (f x)) ())"

definition Wrap_pure :: "Builder \<Rightarrow> (Builder \<Rightarrow> Builder) \<Rightarrow> Builder" where
  "Wrap_pure b f = fst (Builder_Wrap b (pure_closure f) ())"

text \<open>
  The loop of \<open>column\<close> over the attributes of the column. An \<open>AutoIncrement\<close> with a
  value is appended to the attributes of the table \<open>t\<close> unless the table has one: the one
  place where the planner writes to the schema objects it was given.
\<close>

fun column_attrs :: "deps \<Rightarrow> tref \<Rightarrow> Attr list \<Rightarrow> Builder \<Rightarrow> state \<Rightarrow> Builder \<times> state" where
  "column_attrs d t [] b s = (b, s)"
| "column_attrs d t (a # as) b s =
     (case a of
        Collation v \<Rightarrow>
          column_attrs d t as
            (if collation s (heap s t) \<noteq> v then Builder_P b [''COLLATE'', v] else b) s
      | OnUpdate x \<Rightarrow> column_attrs d t as (Builder_P b [''ON UPDATE'', x]) s
      | AutoIncrement v \<Rightarrow>
          column_attrs d t as (Builder_P b [''AUTO_INCREMENT''])
            (if v \<noteq> 0 \<and> \<not> Has_AutoIncrement (Table_Attrs (heap s t))
             then s\<lparr>heap := (heap s)
                    (t := (heap s t)\<lparr>Table_Attrs := Table_Attrs (heap s t) @ [a]\<rparr>)\<rparr>
             else s)
      | _ \<Rightarrow> column_attrs d t as (attr d b [a]) s)"

definition column :: "deps \<Rightarrow> Builder \<Rightarrow> tref \<Rightarrow> Column \<Rightarrow> state \<Rightarrow> Builder \<times> state" where
  "column d b t c s =
     (let b = Builder_P (Builder_Ident b (Column_Name c))
                [mustFormat d (Type_of (Column_Type c))];
          b = (if \<not> Null (Column_Type c) then Builder_P b [''NOT''] else b);
          b = Builder_P b [''NULL''];
          b = columnDefault d b c;
          b = (if (case Type_of (Column_Type c) of JSONType _ \<Rightarrow> True | _ \<Rightarrow> False)
                  \<and> mariadb (conn_of s) \<and> ltV (conn_of s) ''10.4.3''
                  \<and> \<not> Has_Check (Column_Attrs c)
               then Wrap_pure (Builder_P b [''CHECK''])
                      (\<lambda>b. WriteString b (''json_valid(`'' @ Column_Name c @ ''`)''))
               else b)
      in column_attrs d t (Column_Attrs c) b s)"

definition indexPart :: "IndexPart \<Rightarrow> Builder \<Rightarrow> Builder" where
  "indexPart part b =
     (let b = (case Part_C part of
                 Some c \<Rightarrow> Builder_Ident b (Column_Name c)
               | None \<Rightarrow> (case Part_X part of Some x \<Rightarrow> WriteString b x | None \<Rightarrow> b))
      in fold (\<lambda>a b. case a of Collation v \<Rightarrow> if v = ''D'' then Builder_P b [''DESC''] else b
                              | _ \<Rightarrow> b)
           (Part_Attrs part) b)"

definition indexParts :: "Builder \<Rightarrow> IndexPart list \<Rightarrow> Builder" where
  "indexParts b parts = Wrap_pure b (\<lambda>b. MapComma_pure b parts indexPart)"

definition fk_clause :: "state \<Rightarrow> ForeignKey \<Rightarrow> Builder \<Rightarrow> Builder" where
  "fk_clause s fk b =
     (let b = (if Symbol fk \<noteq> [] then Builder_Ident (Builder_P b [''CONSTRAINT'']) (Symbol fk)
               else b);
          b = Builder_P b [''FOREIGN KEY''];
          b = Wrap_pure b (\<lambda>b. MapComma_pure b (FK_Columns fk)
                                 (\<lambda>c b. Builder_Ident b (Column_Name c)));
          b = Builder_Table (Builder_P b [''REFERENCES'']) (heap s (RefTable fk));
          b = Wrap_pure b (\<lambda>b. MapComma_pure b (RefColumns fk)
                                 (\<lambda>c b. Builder_Ident b (Column_Name c)));
          b = (if FK_OnUpdate fk \<noteq> [] then Builder_P b [''ON UPDATE'', FK_OnUpdate fk] else b);
          b = (if FK_OnDelete fk \<noteq> [] then Builder_P b [''ON DELETE'', FK_OnDelete fk] else b)
      in b)"

definition fks :: "state \<Rightarrow> Builder \<Rightarrow> ForeignKey list \<Rightarrow> Builder" where
  "fks s b fs = MapComma_pure b fs (fk_clause s)"

subsection \<open>Whole-table operations\<close>

definition append_change :: "state \<Rightarrow> migrate_Change \<Rightarrow> state" where
  "append_change s c = s\<lparr>Plan := (Plan s)\<lparr>Changes := Changes (Plan s) @ [c]\<rparr>\<rparr>"

definition index_clause :: "deps \<Rightarrow> Index \<Rightarrow> Builder \<Rightarrow> Builder" where
  "index_clause d idx b =
     (let b = (if Index_Unique idx then Builder_P b [''UNIQUE''] else b);
          b = Builder_Ident (Builder_P b [''INDEX'']) (Index_Name idx);
          b = indexParts b (Index_Parts idx)
      in attr d b (Index_Attrs idx))"

text \<open>The closure that \<open>addTable\<close> wraps in parentheses: columns, primary key, indexes, foreign keys.\<close>

definition addTable_body :: "deps \<Rightarrow> tref \<Rightarrow> Builder \<Rightarrow> state \<Rightarrow> Builder \<times> state" where
  "addTable_body d t b s =
     (let (b, s) = Builder_MapComma b (Table_Columns (heap s t)) (\<lambda>c b. column d b t c) s;
          b = (case PrimaryKey (heap s t) of
                 Some pk \<Rightarrow>
                   attr d (indexParts (Builder_P (Builder_Comma b) [''PRIMARY KEY''])
                             (Index_Parts pk)) (Index_Attrs pk)
               | None \<Rightarrow> b);
          b = (if Table_Indexes (heap s t) \<noteq> [] then Builder_Comma b else b);
          b = MapComma_pure b (Table_Indexes (heap s t)) (index_clause d);
          b = (if Table_ForeignKeys (heap s t) \<noteq> []
               then fks s (Builder_Comma b) (Table_ForeignKeys (heap s t)) else b)
      in (b, s))"

definition addTable :: "deps \<Rightarrow> tref \<Rightarrow> Clause list \<Rightarrow> state \<Rightarrow> error option \<times> state" where
  "addTable d t extra s =
     (let b = Builder_Table (Build ''CREATE TABLE'') (heap s t);
          b = (if Has_IfNotExists extra then Builder_P b [''IF NOT EXISTS''] else b);
          (b, s) = Builder_Wrap b (addTable_body d t) s
      in case tableAttr d b (Table_Attrs (heap s t)) of
           (Some err, _) \<Rightarrow> (Some err, s)
         | (None, b) \<Rightarrow>
             (None, append_change s
                \<lparr>Cmd = Builder_String b,
                 Source = AddTable t extra,
                 Reverse = Builder_String (Builder_Table (Build ''DROP TABLE'') (heap s t)),
                 Comment_of = ''create '' @ strconv_Quote d (Table_Name (heap s t)) @ '' table''\<rparr>))"

definition dropTable :: "deps \<Rightarrow> tref \<Rightarrow> Clause list \<Rightarrow> state \<Rightarrow> state" where
  "dropTable d t extra s =
     (let b = Builder_Table (Build ''DROP TABLE'') (heap s t);
          b = (if Has_IfExists extra then Builder_P b [''IF EXISTS''] else b)
      in append_change s
           \<lparr>Cmd = Builder_String b,
            Source = DropTable t extra,
            Reverse = [],
            Comment_of = ''drop '' @ strconv_Quote d (Table_Name (heap s t)) @ '' table''\<rparr>)"

subsection \<open>Altering a table in one statement\<close>

text \<open>The text of an error value (\<open>err.Error()\<close>).\<close>

fun Error_text :: "error \<Rightarrow> string" where
  "Error_text (Error m) = m"
| "Error_text (Panic m) = m"

text \<open>
  The variables that the closure of \<open>alterTable\<close> captures and writes to: the reverse
  builder, the collected errors, the flag \<open>reversible\<close>, and the state.
\<close>

type_synonym alter_vars = "Builder \<times> string list \<times> bool \<times> state"

text \<open>One iteration of the closure of \<open>alterTable\<close>: the clause of one change.\<close>

fun alterClause :: "deps \<Rightarrow> tref \<Rightarrow> Change \<Rightarrow> Builder \<Rightarrow> alter_vars \<Rightarrow> Builder \<times> alter_vars" where
  "alterClause d t (AddColumn c) b (reverse, errors, reversible, s) =
     (let (b, s) = column d (Builder_P b [''ADD COLUMN'']) t c s;
          reverse = Builder_Ident (Builder_P reverse [''DROP COLUMN'']) (Column_Name c)
      in (b, (reverse, errors, reversible, s)))"
| "alterClause d t (ModifyColumn from to k) b (reverse, errors, reversible, s) =
     (let (b, s) = column d (Builder_P b [''MODIFY COLUMN'']) t to s;
          (reverse, s) = column d (Builder_P reverse [''MODIFY COLUMN'']) t from s
      in (b, (reverse, errors, reversible, s)))"
| "alterClause d t (DropColumn c) b (reverse, errors, reversible, s) =
     (Builder_Ident (Builder_P b [''DROP COLUMN'']) (Column_Name c),
      (reverse, errors, False, s))"
| "alterClause d t (AddIndex i) b (reverse, errors, reversible, s) =
     (index_clause d i (Builder_P b [''ADD'']),
      (Builder_Ident (Builder_P reverse [''DROP INDEX'']) (Index_Name i), errors, reversible, s))"
| "alterClause d t (DropIndex i) b (reverse, errors, reversible, s) =
     (Builder_Ident (Builder_P b [''DROP INDEX'']) (Index_Name i),
      (reverse, errors, False, s))"
| "alterClause d t (AddForeignKey f) b (reverse, errors, reversible, s) =
     (fks s (Builder_P b [''ADD'']) [f],
      (Builder_Ident (Builder_P reverse [''DROP FOREIGN KEY'']) (Symbol f), errors,
       reversible, s))"
| "alterClause d t (DropForeignKey f) b (reverse, errors, reversible, s) =
     (Builder_Ident (Builder_P b [''DROP FOREIGN KEY'']) (Symbol f),
      (reverse, errors, False, s))"
| "alterClause d t (AddAttr a) b (reverse, errors, reversible, s) =
     (case tableAttr d b [a] of
        (Some err, b) \<Rightarrow>
          (b, (reverse, errors @ [''add attribute: '' @ Error_text err], False, s))
      | (None, b) \<Rightarrow> (b, (reverse, errors, False, s)))"
| "alterClause d t (ModifyAttr from to) b (reverse, errors, reversible, s) =
     (let (e1, b) = tableAttr d b [to];
          errors = (case e1 of
                      Some err \<Rightarrow> errors @ [''modify attribute: '' @ Error_text err]
                    | None \<Rightarrow> errors);
          (e2, reverse) = tableAttr d reverse [from];
          errors = (case e2 of
                      Some err \<Rightarrow> errors @ [''reverse modify attribute: '' @ Error_text err]
                    | None \<Rightarrow> errors)
      in (b, (reverse, errors, reversible, s)))"
| "alterClause d t _ b vars = (b, vars)"

text \<open>
  \<open>alterTable\<close> modifies the table by a list of changes in one statement. With
  errors collected, it returns them joined and appends nothing.
\<close>

definition alterTable :: "deps \<Rightarrow> tref \<Rightarrow> Change list \<Rightarrow> state \<Rightarrow> error option \<times> state" where
  "alterTable d t changes s =
     (let b = Builder_Table (Build ''ALTER TABLE'') (heap s t);
          reverse = Builder_Clone b;
          (b, reverse, errors, reversible, s) =
             Builder_MapComma b changes (alterClause d t) (reverse, [], True, s)
      in if errors \<noteq> [] then (Some (Error (''alter table: '' @ Join errors '', '')), s)
         else (None, append_change s
                 \<lparr>Cmd = Builder_String b,
                  Source = ModifyTable t changes,
                  Reverse = (if reversible then Builder_String reverse else []),
                  Comment_of = ''modify '' @ strconv_Quote d (Table_Name (heap s t)) @ '' table''\<rparr>))"

subsection \<open>Modifying a table\<close>

text \<open>The first loop of \<open>skipAutoChanges\<close>: the names of the dropped columns.\<close>

fun dropC_loop :: "Change list \<Rightarrow> (string \<Rightarrow> bool) \<Rightarrow> (string \<Rightarrow> bool)" where
  "dropC_loop [] m = m"
| "dropC_loop (c # cs) m =
     dropC_loop cs (case c of DropColumn col \<Rightarrow> m(Column_Name col := True) | _ \<Rightarrow> m)"

text \<open>The inner loop: no part of the index makes the search continue.\<close>

fun parts_dropped :: "(string \<Rightarrow> bool) \<Rightarrow> IndexPart list \<Rightarrow> bool" where
  "parts_dropped dropC [] = True"
| "parts_dropped dropC (p # ps) =
     (case Part_C p of
        None \<Rightarrow> False
      | Some c \<Rightarrow> if \<not> dropC (Column_Name c) then False else parts_dropped dropC ps)"

text \<open>
  The second loop. \<open>range\<close> fixes the number \<open>n\<close> of iterations at the start and reads
  element \<open>i\<close> from the backing array \<open>arr\<close> at each iteration; the slice \<open>changes\<close> is
  the first \<open>len\<close> elements of \<open>arr\<close>. Removing index \<open>i\<close> by
  \<open>append(changes[:i], changes[i+1:]...)\<close> moves the elements after \<open>i\<close> one place down
  in that same array and shortens the slice by one; \<open>changes[i+1:]\<close> panics when
  \<open>i + 1\<close> exceeds the length of the slice.
\<close>

function skip_loop ::
  "(string \<Rightarrow> bool) \<Rightarrow> nat \<Rightarrow> nat \<Rightarrow> Change list \<Rightarrow> nat \<Rightarrow> error + Change list" where
  "skip_loop dropC n i arr len =
     (if n \<le> i then Inr (take len arr)
      else case arr ! i of
             DropIndex idx \<Rightarrow>
               if parts_dropped dropC (Index_Parts idx)
               then if len < i + 1 then Inl (Panic ''slice bounds out of range'')
                    else skip_loop dropC n (i + 1)
                           (take i arr @ drop (i + 1) (take len arr) @ drop (len - 1) arr)
                           (len - 1)
               else skip_loop dropC n (i + 1) arr len
           | _ \<Rightarrow> skip_loop dropC n (i + 1) arr len)"
  by pat_completeness auto
termination
  by (relation "measure (\<lambda>(dropC, n, i, arr, len). n - i)") auto

definition skipAutoChanges :: "Change list \<Rightarrow> error + Change list" where
  "skipAutoChanges changes =
     skip_loop (dropC_loop changes (\<lambda>_. False)) (length changes) 0 changes (length changes)"

text \<open>The first loop of \<open>modifyTable\<close>: the two lists \<open>changes[0]\<close> and \<open>changes[1]\<close>.\<close>

fun buckets_loop ::
  "deps \<Rightarrow> tref \<Rightarrow> Change list \<Rightarrow> Change list \<times> Change list
     \<Rightarrow> error + Change list \<times> Change list" where
  "buckets_loop d t [] acc = Inr acc"
| "buckets_loop d t (change # rest) (c0, c1) =
     (case change of
        DropIndex i \<Rightarrow> buckets_loop d t rest (c0 @ [change], c1)
      | ModifyForeignKey from to k \<Rightarrow>
          (let c0 = c0 @ [DropForeignKey from];
               c0 = (if ChangeKind_Is k (ChangeRefTable d OR ChangeRefColumn d)
                     then c0 @ [DropIndex \<lparr>Index_Name = Symbol from, Index_Unique = False,
                                  Index_Table = Some t, Index_Attrs = [], Index_Parts = []\<rparr>]
                     else c0)
           in buckets_loop d t rest (c0, c1 @ [AddForeignKey to]))
      | ModifyIndex from to k \<Rightarrow>
          buckets_loop d t rest (c0 @ [DropIndex from], c1 @ [AddIndex to])
      | DropAttr a \<Rightarrow> Inl (Error (''unsupported change type: '' @ typeName change))
      | _ \<Rightarrow> buckets_loop d t rest (c0, c1 @ [change]))"

text \<open>The second loop of \<open>modifyTable\<close>: one statement for each list that is not empty.\<close>

fun alter_each :: "deps \<Rightarrow> tref \<Rightarrow> Change list list \<Rightarrow> state \<Rightarrow> error option \<times> state" where
  "alter_each d t [] s = (None, s)"
| "alter_each d t (cs # rest) s =
     (if cs \<noteq> []
      then (case alterTable d t cs s of
              (Some err, s) \<Rightarrow> (Some err, s)
            | (None, s) \<Rightarrow> alter_each d t rest s)
      else alter_each d t rest s)"

definition modifyTable :: "deps \<Rightarrow> tref \<Rightarrow> Change list \<Rightarrow> state \<Rightarrow> error option \<times> state" where
  "modifyTable d t changes s =
     (case skipAutoChanges changes of
        Inl err \<Rightarrow> (Some err, s)
      | Inr remaining \<Rightarrow>
          (case buckets_loop d t remaining ([], []) of
             Inl err \<Rightarrow> (Some err, s)
           | Inr (c0, c1) \<Rightarrow> alter_each d t [c0, c1] s))"

subsection \<open>Planning\<close>

text \<open>
  \<open>topLevel\<close> appends the statements that create or drop schemas and returns the
  other changes.
\<close>

fun topLevel_loop :: "deps \<Rightarrow> Change list \<Rightarrow> Change list \<Rightarrow> state \<Rightarrow> Change list \<times> state" where
  "topLevel_loop d [] planned s = (planned, s)"
| "topLevel_loop d (c # cs) planned s =
     (case c of
        AddSchema sc extra \<Rightarrow>
          (let b = Builder_Ident (Build ''CREATE DATABASE'') (Schema_Name sc);
               b = (if Has_IfNotExists extra then Builder_P b [''IF NOT EXISTS''] else b);
               b = (case Has_Charset (Schema_Attrs sc) of
                      Some v \<Rightarrow> Builder_P b [''CHARACTER SET'', v] | None \<Rightarrow> b);
               b = (case Has_Collation (Schema_Attrs sc) of
                      Some v \<Rightarrow> Builder_P b [''COLLATE'', v] | None \<Rightarrow> b)
           in topLevel_loop d cs planned
                (append_change s
                   \<lparr>Cmd = Builder_String b,
                    Source = c,
                    Reverse = Builder_String
                                (Builder_Ident (Build ''DROP DATABASE'') (Schema_Name sc)),
                    Comment_of = ''add new schema named '' @ strconv_Quote d (Schema_Name sc)\<rparr>))
      | DropSchema sc extra \<Rightarrow>
          (let b = Builder_Ident (Build ''DROP DATABASE'') (Schema_Name sc);
               b = (if Has_IfExists extra then Builder_P b [''IF EXISTS''] else b)
           in topLevel_loop d cs planned
                (append_change s
                   \<lparr>Cmd = Builder_String b,
                    Source = c,
                    Reverse = [],
                    Comment_of = ''drop schema named '' @ strconv_Quote d (Schema_Name sc)\<rparr>))
      | _ \<Rightarrow> topLevel_loop d cs (planned @ [c]) s)"

definition topLevel :: "deps \<Rightarrow> Change list \<Rightarrow> state \<Rightarrow> Change list \<times> state" where
  "topLevel d changes s = topLevel_loop d changes [] s"

text \<open>The loop of \<open>plan\<close> over the ordered table-level changes.\<close>

fun plan_loop :: "deps \<Rightarrow> Change list \<Rightarrow> state \<Rightarrow> error option \<times> state" where
  "plan_loop d [] s = (None, s)"
| "plan_loop d (c # cs) s =
     (case c of
        AddTable t extra \<Rightarrow>
          (case addTable d t extra s of
             (Some err, s) \<Rightarrow> (Some err, s)
           | (None, s) \<Rightarrow> plan_loop d cs s)
      | DropTable t extra \<Rightarrow> plan_loop d cs (dropTable d t extra s)
      | ModifyTable t changes \<Rightarrow>
          (case modifyTable d t changes s of
             (Some err, s) \<Rightarrow> (Some err, s)
           | (None, s) \<Rightarrow> plan_loop d cs s)
      | _ \<Rightarrow> (Some (Error (''unsupported change '' @ typeName c)), s))"

definition plan :: "deps \<Rightarrow> Change list \<Rightarrow> state \<Rightarrow> error option \<times> state" where
  "plan d changes s =
     (let (planned, s) = topLevel d changes s
      in case DetachCycles d planned of
           Inl err \<Rightarrow> (Some err, s)
         | Inr planned \<Rightarrow> plan_loop d planned s)"

text \<open>The loop of \<open>PlanChanges\<close> that recomputes the flag from the changes.\<close>

fun reversible_loop :: "migrate_Change list \<Rightarrow> bool \<Rightarrow> bool" where
  "reversible_loop [] r = r"
| "reversible_loop (c # cs) r = reversible_loop cs (if Reverse c = [] then False else r)"

text \<open>
  \<open>PlanChanges\<close> returns the plan or the error, as the Go function does, and with them
  the tables as the call left them.
\<close>

definition PlanChanges ::
  "deps \<Rightarrow> conn \<Rightarrow> (tref \<Rightarrow> Table) \<Rightarrow> string \<Rightarrow> Change list
     \<Rightarrow> migrate_Plan option \<times> error option \<times> (tref \<Rightarrow> Table)" where
  "PlanChanges d p h name changes =
     (let s = \<lparr>conn_of = p,
               Plan = \<lparr>Name = name, Reversible = True, Transactional = False, Changes = []\<rparr>,
               heap = h\<rparr>
      in case plan d changes s of
           (Some err, s) \<Rightarrow> (None, Some err, heap s)
         | (None, s) \<Rightarrow>
             (Some ((Plan s)\<lparr>Reversible := reversible_loop (Changes (Plan s))
                                             (Reversible (Plan s))\<rparr>),
              None, heap s))"

subsection \<open>An instance of the outside helpers, and sample schema objects\<close>

text \<open>
  Modelled from the spec: an instance of the helpers that are declared outside this
  file, for running the planner on concrete inputs. \<open>DetachCycles\<close> keeps the order (the
  inputs below have no cycle); a string is quoted when it starts and ends with the same
  quote; \<open>strconv.Quote\<close> and \<open>strings.ToLower\<close> are taken on printable ASCII; numeric
  types are the boolean, integer, decimal and float types; a hexadecimal-looking value
  starts with \<open>0x\<close>; the current-timestamp token is \<open>current_timestamp\<close>; a type is
  formatted as its field \<open>T\<close>.
\<close>

definition ascii_lower :: "char \<Rightarrow> char" where
  "ascii_lower c =
     (if (65::nat) \<le> of_char c \<and> (of_char c :: nat) \<le> 90
      then char_of ((of_char c :: nat) + 32) else c)"

definition sample_deps :: deps where
  "sample_deps =
     \<lparr>DetachCycles = Inr,
      IsQuoted = (\<lambda>s qs. 2 \<le> length s \<and> hd s \<in> set qs \<and> last s = hd s),
      strconv_Quote =
        (\<lambda>s. [CHR 0x22]
              @ concat (map (\<lambda>c. if c = CHR 0x22 \<or> c = CHR 0x5C then [CHR 0x5C, c] else [c]) s)
              @ [CHR 0x22]),
      strings_ToLower = map ascii_lower,
      hasNumericDefault =
        (\<lambda>t. case t of BoolType _ \<Rightarrow> True | IntegerType _ \<Rightarrow> True
                | DecimalType _ \<Rightarrow> True | FloatType _ \<Rightarrow> True | _ \<Rightarrow> False),
      isHex = (\<lambda>x. 2 < length x \<and> map ascii_lower (take 2 x) = ''0x''),
      currentTS = ''current_timestamp'',
      mustFormat =
        (\<lambda>t. case t of BoolType x \<Rightarrow> x | IntegerType x \<Rightarrow> x | DecimalType x \<Rightarrow> x
                | FloatType x \<Rightarrow> x | StringType x \<Rightarrow> x | TimeType x \<Rightarrow> x
                | JSONType x \<Rightarrow> x | OtherType x \<Rightarrow> x),
      ChangeRefTable = 2048,
      ChangeRefColumn = 1024\<rparr>"

definition sample_conn :: conn where
  "sample_conn = \<lparr>mariadb = False, ltV = (\<lambda>_. False), collate = ''utf8mb4_0900_ai_ci''\<rparr>"

text \<open>A column \<open>NOT NULL\<close> without default or attributes, an index on columns, an empty table.\<close>

definition col :: "string \<Rightarrow> Type \<Rightarrow> Column" where
  "col n t = \<lparr>Column_Name = n, Column_Type = \<lparr>Type_of = t, Null = False\<rparr>,
     Column_Default = None, Column_Attrs = []\<rparr>"

definition idx_on :: "string \<Rightarrow> Column list \<Rightarrow> Index" where
  "idx_on n cs = \<lparr>Index_Name = n, Index_Unique = False, Index_Table = Some 0, Index_Attrs = [],
     Index_Parts = map (\<lambda>c. \<lparr>Part_C = Some c, Part_X = None, Part_Attrs = []\<rparr>) cs\<rparr>"

definition tbl :: "string \<Rightarrow> Table" where
  "tbl n = \<lparr>Table_Name = n, Table_Schema = None, Table_Columns = [], PrimaryKey = None,
     Table_Indexes = [], Table_ForeignKeys = [], Table_Attrs = []\<rparr>"


text \<open>The store of the samples: the table \<open>users\<close> at address 0, \<open>groups\<close> elsewhere.\<close>

definition sample_heap :: "tref \<Rightarrow> Table" where
  "sample_heap = (\<lambda>_. tbl ''groups'')(0 := tbl ''users'')"

definition sample_state :: state where
  "sample_state =
     \<lparr>conn_of = sample_conn,
      Plan = \<lparr>Name = ''sample'', Reversible = True, Transactional = False, Changes = []\<rparr>,
      heap = sample_heap\<rparr>"


subsection \<open>Notions used to state the properties\<close>

text \<open>
  A builder grows: the quote stays, the text gets no shorter, and all of the text but its
  last byte stays (a comma or a closing parenthesis may take the place of a trailing
  space).
\<close>

definition grows :: "Builder \<Rightarrow> Builder \<Rightarrow> bool" where
  "grows b b' = (QuoteChar b' = QuoteChar b \<and> length (Buffer b) \<le> length (Buffer b')
     \<and> take (length (Buffer b) - 1) (Buffer b') = butlast (Buffer b))"

text \<open>The plan and the connection are the same in both states.\<close>

definition same_plan :: "state \<Rightarrow> state \<Rightarrow> bool" where
  "same_plan s s' = (Plan s' = Plan s \<and> conn_of s' = conn_of s)"

text \<open>
  What may happen to a table: nothing, or, when it has no \<open>AutoIncrement\<close> attribute, one
  \<open>AutoIncrement\<close> with a value other than zero is appended to its attributes.
\<close>

definition table_frame :: "Table \<Rightarrow> Table \<Rightarrow> bool" where
  "table_frame t t' =
     (t' = t \<or>
      (\<not> Has_AutoIncrement (Table_Attrs t) \<and>
       (case rev (Table_Attrs t') of
          AutoIncrement v # _ \<Rightarrow>
            v \<noteq> 0 \<and> t' = t\<lparr>Table_Attrs := Table_Attrs t @ [AutoIncrement v]\<rparr>
        | _ \<Rightarrow> False)))"

definition heap_frame :: "(tref \<Rightarrow> Table) \<Rightarrow> (tref \<Rightarrow> Table) \<Rightarrow> bool" where
  "heap_frame h h' = (\<forall>p. table_frame (h p) (h' p))"

text \<open>
  The clauses that have no reverse: dropping a column, an index or a foreign key, and
  adding an attribute.
\<close>

fun irreversible :: "Change \<Rightarrow> bool" where
  "irreversible (DropColumn _) = True"
| "irreversible (DropIndex _) = True"
| "irreversible (DropForeignKey _) = True"
| "irreversible (AddAttr _) = True"
| "irreversible _ = False"

text \<open>
  The message for a table attribute that cannot be rendered, and the errors that the
  clause of a change contributes to its batch.
\<close>

fun tableAttr_error :: "Attr \<Rightarrow> string option" where
  "tableAttr_error (AutoIncrement v) =
     (if v = 0 then Some ''missing value for table option AUTO_INCREMENT'' else None)"
| "tableAttr_error _ = None"

fun attr_errors :: "Change \<Rightarrow> string list" where
  "attr_errors (AddAttr a) =
     (case tableAttr_error a of Some m \<Rightarrow> [''add attribute: '' @ m] | None \<Rightarrow> [])"
| "attr_errors (ModifyAttr from to) =
     (case tableAttr_error to of Some m \<Rightarrow> [''modify attribute: '' @ m] | None \<Rightarrow> [])
     @ (case tableAttr_error from of
          Some m \<Rightarrow> [''reverse modify attribute: '' @ m] | None \<Rightarrow> [])"
| "attr_errors _ = []"

text \<open>The state after a call differs by the tables only, and those within the frame.\<close>

definition column_step :: "state \<Rightarrow> state \<Rightarrow> bool" where
  "column_step s s' = (same_plan s s' \<and> heap_frame (heap s) (heap s'))"

text \<open>The error that \<open>alterTable\<close> returns for a batch with attribute errors.\<close>

definition batch_errors :: "Change list \<Rightarrow> string list" where
  "batch_errors cs = concat (map attr_errors cs)"

definition batch_error :: "Change list \<Rightarrow> error" where
  "batch_error cs = Error (''alter table: '' @ Join (batch_errors cs) '', '')"

text \<open>The text of the builder starts with \<open>p\<close> and goes on.\<close>

definition starts :: "string \<Rightarrow> Builder \<Rightarrow> bool" where
  "starts p b = (length p < length (Buffer b) \<and> take (length p) (Buffer b) = p)"

text \<open>The sources of the statements of the table-level changes.\<close>

fun is_table_source :: "Change \<Rightarrow> bool" where
  "is_table_source (AddTable _ _) = True"
| "is_table_source (DropTable _ _) = True"
| "is_table_source (ModifyTable _ _) = True"
| "is_table_source _ = False"

text \<open>
  What a table-level operation does to the state: it appends statements of table-level
  sources to the plan and keeps the tables within the frame.
\<close>

definition table_step :: "state \<Rightarrow> state \<Rightarrow> bool" where
  "table_step s s' =
     (conn_of s' = conn_of s \<and> Name (Plan s') = Name (Plan s)
      \<and> Reversible (Plan s') = Reversible (Plan s)
      \<and> Transactional (Plan s') = Transactional (Plan s)
      \<and> prefix (Changes (Plan s)) (Changes (Plan s'))
      \<and> list_all (\<lambda>c. is_table_source (Source c))
           (drop (length (Changes (Plan s))) (Changes (Plan s')))
      \<and> heap_frame (heap s) (heap s'))"

text \<open>The changes that create or drop a schema.\<close>

fun is_schema_change :: "Change \<Rightarrow> bool" where
  "is_schema_change (AddSchema _ _) = True"
| "is_schema_change (DropSchema _ _) = True"
| "is_schema_change _ = False"

text \<open>The \<open>DROP DATABASE\<close> statement for a schema.\<close>

definition drop_database_text :: "Schema \<Rightarrow> string" where
  "drop_database_text sc =
     (if Schema_Name sc = [] then ''DROP DATABASE''
      else ''DROP DATABASE `'' @ Schema_Name sc @ ''`'')"

text \<open>
  The reverse of the statement of a schema change: the \<open>DROP DATABASE\<close> of the schema
  for an \<open>AddSchema\<close>, none for a \<open>DropSchema\<close>.
\<close>

definition schema_reverse_ok :: "migrate_Change \<Rightarrow> bool" where
  "schema_reverse_ok m =
     (case Source m of
        AddSchema sc _ \<Rightarrow> Reverse m = drop_database_text sc
      | DropSchema _ _ \<Rightarrow> Reverse m = []
      | _ \<Rightarrow> True)"





definition schema_changes :: "Change list" where
  "schema_changes =
     [DropSchema \<lparr>Schema_Name = ''old'', Schema_Attrs = []\<rparr> [IfExists],
      AddSchema \<lparr>Schema_Name = ''public'', Schema_Attrs = [Charset ''utf8'']\<rparr> []]"

definition schema_result :: "migrate_Plan option \<times> error option \<times> (tref \<Rightarrow> Table)" where
  "schema_result = PlanChanges sample_deps sample_conn sample_heap ''sample'' schema_changes"

text \<open>
  The index drops that \<open>skipAutoChanges\<close> removes when it reads them: every part of
  the index is a column that a \<open>DropColumn\<close> of the same modification drops.
\<close>

fun removable :: "(string \<Rightarrow> bool) \<Rightarrow> Change \<Rightarrow> bool" where
  "removable dropC (DropIndex idx) = parts_dropped dropC (Index_Parts idx)"
| "removable dropC _ = False"

text \<open>
  The two buckets, edit by edit. Bucket 0: an index drop; for a modified foreign key the
  drop of the old key, and the drop of the index named after the old key when the
  referenced table or column changed; for a modified index the drop of the old index.
  Bucket 1: for a modified foreign key the new key, for a modified index the new index,
  and every other edit but an index drop.
\<close>

fun bucket0_of :: "deps \<Rightarrow> tref \<Rightarrow> Change \<Rightarrow> Change list" where
  "bucket0_of d t (DropIndex i) = [DropIndex i]"
| "bucket0_of d t (ModifyForeignKey old new k) =
     DropForeignKey old #
     (if ChangeKind_Is k (ChangeRefTable d OR ChangeRefColumn d)
      then [DropIndex \<lparr>Index_Name = Symbol old, Index_Unique = False, Index_Table = Some t,
              Index_Attrs = [], Index_Parts = []\<rparr>]
      else [])"
| "bucket0_of d t (ModifyIndex old new k) = [DropIndex old]"
| "bucket0_of d t _ = []"

fun bucket1_of :: "Change \<Rightarrow> Change list" where
  "bucket1_of (DropIndex i) = []"
| "bucket1_of (ModifyForeignKey old new k) = [AddForeignKey new]"
| "bucket1_of (ModifyIndex old new k) = [AddIndex new]"
| "bucket1_of c = [c]"

text \<open>The edit that \<open>modifyTable\<close> does not support.\<close>

fun is_DropAttr :: "Change \<Rightarrow> bool" where
  "is_DropAttr (DropAttr _) = True"
| "is_DropAttr _ = False"

text \<open>The batches of a modification: bucket 0, then bucket 1, without the empty ones.\<close>

definition batches :: "deps \<Rightarrow> tref \<Rightarrow> Change list \<Rightarrow> Change list list" where
  "batches d t remaining =
     filter (\<lambda>cs. cs \<noteq> []) [concat (map (bucket0_of d t) remaining), concat (map bucket1_of remaining)]"

text \<open>
  Sample edits of the table \<open>users\<close>: an index is rebuilt and a column added; a foreign
  key is added before another one on the same column is dropped; two indexes on a
  dropped column are dropped with it, before it and after it.
\<close>

definition sample_c :: Column where
  "sample_c = col ''c'' (IntegerType ''int'')"

definition rebuild_edits :: "Change list" where
  "rebuild_edits =
     [ModifyIndex (idx_on ''i1'' [sample_c]) (idx_on ''i1'' [sample_c, sample_c]) 256,
      AddColumn (col ''n'' (IntegerType ''int''))]"


definition elide_edits :: "Change list" where
  "elide_edits =
     [DropIndex (idx_on ''i1'' [sample_c]), DropIndex (idx_on ''i2'' [sample_c]),
      DropColumn sample_c]"

definition panic_edits :: "Change list" where
  "panic_edits =
     [DropAttr (Comment ''x''), DropColumn sample_c,
      DropIndex (idx_on ''i1'' [sample_c]), DropIndex (idx_on ''i2'' [sample_c])]"

text \<open>A batch with an attribute that cannot be rendered.\<close>

definition zero_edits :: "Change list" where
  "zero_edits = [AddColumn sample_c, AddAttr (AutoIncrement 0)]"

text \<open>
  The rules of the default-value formatter, in priority order, for a column of type \<open>t\<close>
  and a default \<open>e\<close>: unquoted on a numeric type; unquoted when the value looks
  hexadecimal; a raw expression in parentheses is passed through; a raw expression on a
  time type whose lower-case text starts with the current-timestamp token is passed
  through; every other value is quoted, and a quoted value is left as it is.
\<close>

fun Expr_text :: "Expr \<Rightarrow> string" where
  "Expr_text (Literal v) = v"
| "Expr_text (RawExpr x) = x"

fun is_raw :: "Expr \<Rightarrow> bool" where
  "is_raw (Literal _) = False"
| "is_raw (RawExpr _) = True"

fun time_typed :: "Type \<Rightarrow> bool" where
  "time_typed (TimeType _) = True"
| "time_typed _ = False"

definition default_value :: "deps \<Rightarrow> Type \<Rightarrow> Expr \<Rightarrow> string" where
  "default_value d t e =
     (let v = Expr_text e
      in if hasNumericDefault d t then v
         else if isHex d v then v
         else if is_raw e \<and> HasPrefix v ''('' \<and> HasSuffix v '')'' then v
         else if is_raw e \<and> time_typed t \<and> HasPrefix (strings_ToLower d v) (currentTS d) then v
         else if IsQuoted d v [CHR 0x22, CHR 0x27] then v
         else strconv_Quote d v)"

text \<open>
  The rules as the claim words the fourth: the raw expression is the current-timestamp
  token, whatever the case of its letters.
\<close>

definition claimed_default_value :: "deps \<Rightarrow> Type \<Rightarrow> Expr \<Rightarrow> string" where
  "claimed_default_value d t e =
     (let v = Expr_text e
      in if hasNumericDefault d t then v
         else if isHex d v then v
         else if is_raw e \<and> HasPrefix v ''('' \<and> HasSuffix v '')'' then v
         else if is_raw e \<and> time_typed t \<and> strings_ToLower d v = currentTS d then v
         else if IsQuoted d v [CHR 0x22, CHR 0x27] then v
         else strconv_Quote d v)"

text \<open>A time-typed column with a raw default that starts with the token and goes on.\<close>

definition ts_column :: Column where
  "ts_column = (col ''at'' (TimeType ''timestamp(6)''))
     \<lparr>Column_Default := Some (RawExpr ''CURRENT_TIMESTAMP(6)'')\<rparr>"

text \<open>
  The changes that the loop of \<open>plan\<close> has a rule for: a table is added, dropped, or
  modified by edits without a \<open>DropAttr\<close>.
\<close>

fun supported :: "Change \<Rightarrow> bool" where
  "supported (AddTable _ _) = True"
| "supported (DropTable _ _) = True"
| "supported (ModifyTable _ edits) = (\<not> list_ex is_DropAttr edits)"
| "supported _ = False"





section \<open>Properties\<close>

declare Builder_P.simps [simp del]

subsection \<open>Builders only grow\<close>

lemma grows_refl: "grows b b"
  by (simp add: grows_def butlast_conv_take)

lemma grows_trans: "grows a b \<Longrightarrow> grows b c \<Longrightarrow> grows a c"
proof -
  assume ab: "grows a b" and bc: "grows b c"
  let ?n = "length (Buffer a) - 1"
  have le: "?n \<le> length (Buffer b) - 1" using ab unfolding grows_def by arith
  have "take ?n (Buffer c) = take ?n (take (length (Buffer b) - 1) (Buffer c))"
    using le by (simp add: min_absorb1)
  also have "\<dots> = take ?n (butlast (Buffer b))" using bc by (simp add: grows_def)
  also have "\<dots> = take ?n (Buffer b)" using le by (simp add: butlast_conv_take min_absorb1)
  also have "\<dots> = butlast (Buffer a)" using ab by (simp add: grows_def)
  finally show ?thesis using ab bc by (simp add: grows_def)
qed

lemma grows_WriteString: "grows b (WriteString b s)"
  by (simp add: grows_def WriteString_def butlast_conv_take)

lemma grows_WriteByte: "grows b (WriteByte b c)"
  by (simp add: grows_def WriteByte_def butlast_conv_take)

lemma grows_rewriteLastByte: "grows b (rewriteLastByte b c)"
  by (simp add: grows_def rewriteLastByte_def butlast_conv_take)

lemma grows_P: "grows b (Builder_P b ps)"
proof (induction ps arbitrary: b)
  case Nil
  show ?case by (simp add: Builder_P.simps grows_refl)
next
  case (Cons p ps)
  show ?case
  proof (cases "p = []")
    case True
    then show ?thesis using Cons by (simp add: Builder_P.simps)
  next
    case False
    define b1 where "b1 = (if Buffer b \<noteq> [] \<and> lastByte b \<noteq> CHR '' '' then WriteByte b (CHR '' '') else b)"
    define b3 where "b3 = (if last p \<noteq> CHR '' '' then WriteByte (WriteString b1 p) (CHR '' '') else WriteString b1 p)"
    have "grows b b1" by (simp add: b1_def grows_refl grows_WriteByte)
    moreover have "grows b1 b3"
      unfolding b3_def using grows_trans[OF grows_WriteString grows_WriteByte] grows_WriteString by simp
    moreover have "Builder_P b (p # ps) = Builder_P b3 ps"
      using False by (simp add: Builder_P.simps b1_def b3_def Let_def)
    ultimately show ?thesis using Cons[of b3] grows_trans by metis
  qed
qed

lemma grows_Ident: "grows b (Builder_Ident b s)"
proof -
  have "grows b (WriteByte (WriteByte (WriteString (WriteByte b (QuoteChar b)) s) (QuoteChar b)) (CHR '' ''))"
    by (simp add: grows_def WriteByte_def WriteString_def butlast_conv_take)
  then show ?thesis by (simp add: Builder_Ident_def grows_refl)
qed

lemma grows_Table: "grows b (Builder_Table b t)"
  unfolding Builder_Table_def Let_def
  by (auto split: option.splits intro: grows_Ident grows_trans[OF grows_Ident grows_Ident]
        grows_trans[OF grows_trans[OF grows_Ident grows_rewriteLastByte] grows_Ident])

lemma grows_Comma: "grows b (Builder_Comma b)"
  unfolding Builder_Comma_def
  by (auto intro: grows_WriteString grows_trans[OF grows_rewriteLastByte grows_WriteByte])

lemma grows_Wrap:
  assumes "\<And>b0 a0 b1 a1. f b0 a0 = (b1, a1) \<Longrightarrow> grows b0 b1"
    and "Builder_Wrap b f a = (b', a')"
  shows "grows b b'"
proof -
  obtain b1 a1 where f: "f (WriteByte b (CHR ''('')) a = (b1, a1)"
    by (cases "f (WriteByte b (CHR ''('')) a")
  then have b': "b' = (if lastByte b1 \<noteq> CHR '' '' then WriteByte b1 (CHR '')'')
          else rewriteLastByte b1 (CHR '')''))"
    using assms(2) by (simp add: Builder_Wrap_def)
  have "grows b b1" using grows_trans[OF grows_WriteByte assms(1)[OF f]] .
  moreover have "grows b1 b'" by (simp add: b' grows_WriteByte grows_rewriteLastByte)
  ultimately show ?thesis by (rule grows_trans)
qed

lemma grows_MapComma_loop:
  assumes "\<And>x b0 a0 b1 a1. f x b0 a0 = (b1, a1) \<Longrightarrow> grows b0 b1"
    and "MapComma_loop i xs f b a = (b', a')"
  shows "grows b b'"
  using assms(2)
proof (induction xs arbitrary: i b a)
  case Nil
  then show ?case by (simp add: grows_refl)
next
  case (Cons x xs)
  let ?b0 = "if i > 0 then Builder_Comma b else b"
  obtain b1 a1 where f: "f x ?b0 a = (b1, a1)" by (cases "f x ?b0 a")
  with Cons.prems have rest: "MapComma_loop (Suc i) xs f b1 a1 = (b', a')"
    by (simp add: Let_def)
  have "grows b ?b0" by (simp add: grows_refl grows_Comma)
  then have "grows b b1" using assms(1)[OF f] by (rule grows_trans)
  then show ?case using Cons.IH[OF rest] by (rule grows_trans)
qed

lemma grows_MapComma:
  assumes "\<And>x b0 a0 b1 a1. f x b0 a0 = (b1, a1) \<Longrightarrow> grows b0 b1"
    and "Builder_MapComma b xs f a = (b', a')"
  shows "grows b b'"
  using assms unfolding Builder_MapComma_def by (rule grows_MapComma_loop)

lemma grows_MapComma_pure:
  assumes "\<And>x b0. grows b0 (f x b0)"
  shows "grows b (MapComma_pure b xs f)"
proof -
  obtain b' u where r: "Builder_MapComma b xs (\<lambda>x. pure_closure (f x)) () = (b', u)"
    by (cases "Builder_MapComma b xs (\<lambda>x. pure_closure (f x)) ()")
  have "grows b b'"
    by (rule grows_MapComma[OF _ r]) (auto simp: pure_closure_def assms)
  then show ?thesis by (simp add: MapComma_pure_def r)
qed

lemma grows_Wrap_pure:
  assumes "\<And>b0. grows b0 (f b0)"
  shows "grows b (Wrap_pure b f)"
proof -
  obtain b' u where r: "Builder_Wrap b (pure_closure f) () = (b', u)"
    by (cases "Builder_Wrap b (pure_closure f) ()")
  have "grows b b'"
    by (rule grows_Wrap[OF _ r]) (auto simp: pure_closure_def assms)
  then show ?thesis by (simp add: Wrap_pure_def r)
qed

lemma grows_attr: "grows b (attr d b as)"
proof (induction as arbitrary: b)
  case Nil
  show ?case by (simp add: grows_refl)
next
  case (Cons a as)
  show ?case
    by (cases a) (auto intro: Cons grows_trans[OF grows_P Cons])
qed

lemma grows_tableAttr: "tableAttr d b as = (e, b') \<Longrightarrow> grows b b'"
proof (induction as arbitrary: b)
  case Nil
  then show ?case by (simp add: grows_refl)
next
  case (Cons a as)
  then show ?case
    by (cases a) (auto intro: grows_refl grows_trans[OF grows_P] split: if_splits)
qed

lemma grows_columnDefault: "grows b (columnDefault d b c)"
  unfolding columnDefault_def Let_def
  by (auto split: option.splits Expr.splits intro: grows_refl grows_P)

lemma grows_column_attrs: "column_attrs d t as b s = (b', s') \<Longrightarrow> grows b b'"
proof (induction as arbitrary: b s)
  case Nil
  then show ?case by (simp add: grows_refl)
next
  case (Cons a as)
  from Cons.prems obtain b1 s1 where rest: "column_attrs d t as b1 s1 = (b', s')"
    and b1: "grows b b1"
    by (cases a) (auto intro: grows_refl grows_P grows_attr split: if_splits)
  from b1 Cons.IH[OF rest] show ?case by (rule grows_trans)
qed

lemma grows_column: "column d b t c s = (b', s') \<Longrightarrow> grows b b'"
proof -
  assume r: "column d b t c s = (b', s')"
  define b1 where "b1 = Builder_P (Builder_Ident b (Column_Name c)) [mustFormat d (Type_of (Column_Type c))]"
  define b2 where "b2 = (if \<not> Null (Column_Type c) then Builder_P b1 [''NOT''] else b1)"
  define b4 where "b4 = columnDefault d (Builder_P b2 [''NULL'']) c"
  define b5 where "b5 = (if (case Type_of (Column_Type c) of JSONType _ \<Rightarrow> True | _ \<Rightarrow> False)
                  \<and> mariadb (conn_of s) \<and> ltV (conn_of s) ''10.4.3''
                  \<and> \<not> Has_Check (Column_Attrs c)
               then Wrap_pure (Builder_P b4 [''CHECK''])
                      (\<lambda>b. WriteString b (''json_valid(`'' @ Column_Name c @ ''`)''))
               else b4)"
  have "grows b b1" unfolding b1_def by (rule grows_trans[OF grows_Ident grows_P])
  moreover have "grows b1 b2" by (simp add: b2_def grows_refl grows_P)
  moreover have "grows b2 b4" unfolding b4_def by (rule grows_trans[OF grows_P grows_columnDefault])
  moreover have "grows b4 b5" unfolding b5_def
    by (auto intro: grows_refl grows_trans[OF grows_P grows_Wrap_pure] grows_WriteString)
  moreover have "column d b t c s = column_attrs d t (Column_Attrs c) b5 s"
    unfolding column_def Let_def b5_def b4_def b2_def b1_def by (rule refl)
  then have "column_attrs d t (Column_Attrs c) b5 s = (b', s')" using r by simp
  then have "grows b5 b'" by (rule grows_column_attrs)
  ultimately show ?thesis by (meson grows_trans)
qed

lemma grows_indexPart: "grows b (indexPart p b)"
proof -
  have fold: "grows b0 (fold (\<lambda>a b. case a of Collation v \<Rightarrow> if v = ''D'' then Builder_P b [''DESC''] else b
                              | _ \<Rightarrow> b) as b0)" for as b0
  proof (induction as arbitrary: b0)
    case Nil
    show ?case by (simp add: grows_refl)
  next
    case (Cons a as)
    have "grows b0 (case a of Collation v \<Rightarrow> if v = ''D'' then Builder_P b0 [''DESC''] else b0 | _ \<Rightarrow> b0)"
      by (cases a) (auto intro: grows_refl grows_P)
    then show ?case using Cons by (auto intro: grows_trans)
  qed
  have "grows b (case Part_C p of
                 Some c \<Rightarrow> Builder_Ident b (Column_Name c)
               | None \<Rightarrow> (case Part_X p of Some x \<Rightarrow> WriteString b x | None \<Rightarrow> b))"
    by (auto split: option.splits intro: grows_refl grows_Ident grows_WriteString)
  then show ?thesis unfolding indexPart_def Let_def using fold by (rule grows_trans)
qed

lemma grows_indexParts: "grows b (indexParts b ps)"
  unfolding indexParts_def by (intro grows_Wrap_pure grows_MapComma_pure grows_indexPart)

lemma grows_index_clause: "grows b (index_clause d i b)"
  unfolding index_clause_def Let_def
  by (auto intro!: grows_trans[OF _ grows_attr] grows_trans[OF _ grows_indexParts]
       grows_trans[OF _ grows_Ident] grows_P grows_trans[OF grows_P grows_P])

lemma grows_fk_clause: "grows b (fk_clause s fk b)"
  unfolding fk_clause_def Let_def
  by (auto intro!: grows_P grows_trans[OF _ grows_P] grows_trans[OF _ grows_Wrap_pure]
        grows_trans[OF _ grows_Table] grows_trans[OF _ grows_Ident] grows_MapComma_pure grows_Ident)

lemma grows_fks: "grows b (fks s b fs)"
  unfolding fks_def by (intro grows_MapComma_pure grows_fk_clause)

subsection \<open>The text of a statement\<close>

lemma starts_grows:
  assumes "starts p b" and "grows b b'"
  shows "starts p b'"
proof -
  let ?n = "length (Buffer b) - 1"
  have le: "length p \<le> ?n" using assms(1) unfolding starts_def by arith
  have "take (length p) (Buffer b') = take (length p) (take ?n (Buffer b'))"
    using le by (simp add: min_absorb1)
  also have "\<dots> = take (length p) (butlast (Buffer b))" using assms(2) by (simp add: grows_def)
  also have "\<dots> = take (length p) (Buffer b)" using le by (simp add: butlast_conv_take min_absorb1)
  finally show ?thesis using assms unfolding starts_def grows_def by auto
qed

lemma Buffer_Build:
  "p \<noteq> [] \<Longrightarrow> last p \<noteq> CHR '' '' \<Longrightarrow> Buffer (Build p) = p @ '' ''"
  by (simp add: Build_def Builder_P.simps WriteString_def WriteByte_def Let_def)

lemma starts_Build: "p \<noteq> [] \<Longrightarrow> last p \<noteq> CHR '' '' \<Longrightarrow> starts p (Build p)"
  by (simp add: starts_def Buffer_Build)

lemma dropWhile_rev_keeps:
  assumes "p \<noteq> []" and "\<not> P (last p)"
  shows "\<exists>x. dropWhile P (rev (p @ r)) = x @ rev p"
proof (cases "\<forall>c\<in>set (rev r). P c")
  case True
  then have "dropWhile P (rev r @ rev p) = dropWhile P (rev p)"
    by (intro dropWhile_append2) simp
  also have "\<dots> = rev p" using assms by (cases p rule: rev_cases) auto
  finally show ?thesis by simp
next
  case False
  then obtain c where "c \<in> set (rev r)" "\<not> P c" by blast
  then have "dropWhile P (rev r @ rev p) = dropWhile P (rev r) @ rev p"
    by (rule dropWhile_append1)
  then show ?thesis by simp
qed

lemma TrimSpace_prefix:
  assumes "p \<noteq> []" and "\<not> isSpace (hd p)" and "\<not> isSpace (last p)"
  shows "\<exists>r'. TrimSpace (p @ r) = p @ r'"
proof -
  have "dropWhile isSpace (p @ r) = p @ r" using assms(1,2) by (cases p) auto
  moreover obtain x where "dropWhile isSpace (rev (p @ r)) = x @ rev p"
    using dropWhile_rev_keeps[where P = isSpace and p = p and r = r] assms(1,3) by blast
  ultimately have "TrimSpace (p @ r) = p @ rev x" by (simp add: TrimSpace_def)
  then show ?thesis by blast
qed

lemma String_starts:
  assumes "starts p b" and "p \<noteq> []" and "\<not> isSpace (hd p)" and "\<not> isSpace (last p)"
  shows "HasPrefix (Builder_String b) p"
proof -
  have "Buffer b = p @ drop (length p) (Buffer b)"
    using assms(1) by (metis append_take_drop_id starts_def)
  then obtain r where "Buffer b = p @ r" ..
  then obtain r' where "Builder_String b = p @ r'"
    using TrimSpace_prefix[OF assms(2-4), of r] by (auto simp: Builder_String_def)
  then show ?thesis by (simp add: HasPrefix_def)
qed

lemma HasPrefix_nonempty: "HasPrefix s p \<Longrightarrow> p \<noteq> [] \<Longrightarrow> s \<noteq> []"
  by (auto simp: HasPrefix_def)

lemma ALTER_starts:
  "grows (Builder_Table (Build ''ALTER TABLE'') T) b \<Longrightarrow> HasPrefix (Builder_String b) ''ALTER TABLE''"
proof -
  assume g: "grows (Builder_Table (Build ''ALTER TABLE'') T) b"
  have "starts ''ALTER TABLE'' (Build ''ALTER TABLE'')" by (rule starts_Build) simp_all
  then have "starts ''ALTER TABLE'' b" using grows_trans[OF grows_Table g] starts_grows by blast
  then show ?thesis by (rule String_starts) (simp_all add: isSpace_def)
qed

lemma TrimSpace_pad:
  assumes "x \<noteq> []" and "\<not> isSpace (hd x)" and "\<not> isSpace (last x)"
  shows "TrimSpace (x @ '' '') = x"
proof -
  have "dropWhile isSpace (x @ '' '') = x @ '' ''" using assms(1,2) by (cases x) auto
  moreover have "dropWhile isSpace (rev x) = rev x"
    using assms(1,3) by (cases x rule: rev_cases) auto
  ultimately show ?thesis by (simp add: TrimSpace_def isSpace_def)
qed

lemma drop_database_String:
  "Builder_String (Builder_Ident (Build ''DROP DATABASE'') (Schema_Name sc)) = drop_database_text sc"
proof (cases "Schema_Name sc = []")
  case True
  have "TrimSpace (''DROP DATABASE'' @ '' '') = ''DROP DATABASE''"
    by (rule TrimSpace_pad) (simp_all add: isSpace_def)
  then show ?thesis
    using True by (simp add: Builder_Ident_def Builder_String_def Buffer_Build drop_database_text_def)
next
  case False
  let ?x = "''DROP DATABASE `'' @ Schema_Name sc @ ''`''"
  have q: "QuoteChar (Build ''DROP DATABASE'') = CHR 0x60"
    by (simp add: Build_def Builder_P.simps WriteString_def WriteByte_def Let_def)
  have "Buffer (Builder_Ident (Build ''DROP DATABASE'') (Schema_Name sc)) = ?x @ '' ''"
    using False by (simp add: Builder_Ident_def Buffer_Build WriteByte_def WriteString_def q)
  moreover have "TrimSpace (?x @ '' '') = ?x"
    by (rule TrimSpace_pad) (simp_all add: isSpace_def)
  ultimately show ?thesis using False by (simp add: Builder_String_def drop_database_text_def)
qed

subsection \<open>What rendering a column does to the state\<close>

lemma same_plan_refl: "same_plan s s"
  by (simp add: same_plan_def)

lemma same_plan_trans: "same_plan s s1 \<Longrightarrow> same_plan s1 s2 \<Longrightarrow> same_plan s s2"
  by (simp add: same_plan_def)

lemma Has_AutoIncrement_append:
  "Has_AutoIncrement (as @ bs) = (Has_AutoIncrement as \<or> Has_AutoIncrement bs)"
  by (induction as) (auto split: Attr.splits)

lemma table_frame_refl: "table_frame t t"
  by (simp add: table_frame_def)

lemma table_frame_append:
  "\<not> Has_AutoIncrement (Table_Attrs t) \<Longrightarrow> v \<noteq> 0
   \<Longrightarrow> table_frame t (t\<lparr>Table_Attrs := Table_Attrs t @ [AutoIncrement v]\<rparr>)"
  by (simp add: table_frame_def)

lemma table_frame_cases:
  "table_frame t t' \<Longrightarrow> t' = t \<or> Has_AutoIncrement (Table_Attrs t')"
  by (auto simp: table_frame_def Has_AutoIncrement_append split: list.splits Attr.splits)

lemma table_frame_trans:
  assumes "table_frame a b" and "table_frame b c"
  shows "table_frame a c"
proof (cases "b = a")
  case True
  then show ?thesis using assms(2) by simp
next
  case False
  then have "Has_AutoIncrement (Table_Attrs b)" using table_frame_cases[OF assms(1)] by simp
  then have "c = b" using assms(2) by (auto simp: table_frame_def)
  then show ?thesis using assms(1) by simp
qed

lemma heap_frame_refl: "heap_frame h h"
  by (simp add: heap_frame_def table_frame_refl)

lemma heap_frame_trans: "heap_frame h h1 \<Longrightarrow> heap_frame h1 h2 \<Longrightarrow> heap_frame h h2"
  unfolding heap_frame_def by (blast intro: table_frame_trans)

lemma heap_frame_upd:
  "\<not> Has_AutoIncrement (Table_Attrs (h t)) \<Longrightarrow> v \<noteq> 0
   \<Longrightarrow> heap_frame h (h(t := (h t)\<lparr>Table_Attrs := Table_Attrs (h t) @ [AutoIncrement v]\<rparr>))"
  by (simp add: heap_frame_def table_frame_refl table_frame_append)

lemma column_step_refl: "column_step s s"
  by (simp add: column_step_def same_plan_refl heap_frame_refl)

lemma column_step_trans: "column_step s s1 \<Longrightarrow> column_step s1 s2 \<Longrightarrow> column_step s s2"
  unfolding column_step_def by (blast intro: same_plan_trans heap_frame_trans)

lemma column_attrs_step: "column_attrs d t as b s = (b', s') \<Longrightarrow> column_step s s'"
proof (induction as arbitrary: b s)
  case Nil
  then show ?case by (simp add: column_step_refl)
next
  case (Cons a as)
  from Cons.prems obtain b1 s1 where rest: "column_attrs d t as b1 s1 = (b', s')"
    and s1: "column_step s s1"
    by (cases a)
       (auto simp: column_step_refl column_step_def same_plan_def heap_frame_upd heap_frame_refl
          split: if_splits)
  from s1 Cons.IH[OF rest] show ?case by (rule column_step_trans)
qed

lemma column_step: "column d b t c s = (b', s') \<Longrightarrow> column_step s s'"
  unfolding column_def Let_def by (rule column_attrs_step)




subsection \<open>One statement for a batch\<close>

lemma tableAttr_single:
  "tableAttr d b [a] = (e, b') \<Longrightarrow> e = map_option Error (tableAttr_error a)"
  by (cases a) (auto split: if_splits)

lemma alterClause_props:
  assumes "alterClause d t c b (rv, errs, r, s) = (b', rv', errs', r', s')"
  shows "grows b b' \<and> grows rv rv' \<and> errs' = errs @ attr_errors c
         \<and> r' = (r \<and> \<not> irreversible c) \<and> column_step s s'"
proof (cases c)
  case (AddColumn x)
  obtain b1 s1 where c1: "column d (Builder_P b [''ADD COLUMN'']) t x s = (b1, s1)"
    by (cases "column d (Builder_P b [''ADD COLUMN'']) t x s")
  with assms AddColumn show ?thesis
    using grows_trans[OF grows_P grows_column[OF c1]] column_step[OF c1]
          grows_trans[OF grows_P grows_Ident]
    by auto
next
  case (ModifyColumn old new k)
  obtain b1 s1 where c1: "column d (Builder_P b [''MODIFY COLUMN'']) t new s = (b1, s1)"
    by (cases "column d (Builder_P b [''MODIFY COLUMN'']) t new s")
  obtain r2 s2 where c2: "column d (Builder_P rv [''MODIFY COLUMN'']) t old s1 = (r2, s2)"
    by (cases "column d (Builder_P rv [''MODIFY COLUMN'']) t old s1")
  with assms ModifyColumn c1 show ?thesis
    using grows_trans[OF grows_P grows_column[OF c1]] grows_trans[OF grows_P grows_column[OF c2]]
          column_step_trans[OF column_step[OF c1] column_step[OF c2]]
    by auto
next
  case (AddAttr a)
  obtain e b1 where t1: "tableAttr d b [a] = (e, b1)" by (cases "tableAttr d b [a]")
  with assms AddAttr show ?thesis
    using grows_tableAttr[OF t1] tableAttr_single[OF t1]
    by (cases "tableAttr_error a") (auto simp: grows_refl column_step_refl)
next
  case (ModifyAttr old new)
  obtain e1 b1 where t1: "tableAttr d b [new] = (e1, b1)" by (cases "tableAttr d b [new]")
  obtain e2 r1 where t2: "tableAttr d rv [old] = (e2, r1)" by (cases "tableAttr d rv [old]")
  with assms ModifyAttr t1 show ?thesis
    using grows_tableAttr[OF t1] tableAttr_single[OF t1] grows_tableAttr[OF t2] tableAttr_single[OF t2]
    by (cases "tableAttr_error new"; cases "tableAttr_error old")
       (auto simp: grows_refl column_step_refl)
qed (use assms in \<open>auto simp: grows_refl column_step_refl
       intro: grows_trans[OF grows_P grows_Ident] grows_trans[OF grows_P grows_index_clause]
              grows_trans[OF grows_P grows_fks]\<close>)

lemma alter_loop_props:
  assumes "MapComma_loop i cs (alterClause d t) b (rv, errs, r, s) = (b', rv', errs', r', s')"
  shows "grows b b' \<and> grows rv rv' \<and> errs' = errs @ concat (map attr_errors cs)
         \<and> r' = (r \<and> (\<forall>c\<in>set cs. \<not> irreversible c)) \<and> column_step s s'"
  using assms
proof (induction cs arbitrary: i b rv errs r s)
  case Nil
  then show ?case by (simp add: grows_refl column_step_refl)
next
  case (Cons c cs)
  let ?b0 = "if i > 0 then Builder_Comma b else b"
  obtain b1 rv1 errs1 r1 s1
    where f: "alterClause d t c ?b0 (rv, errs, r, s) = (b1, rv1, errs1, r1, s1)"
    by (cases "alterClause d t c ?b0 (rv, errs, r, s)") auto
  with Cons.prems
  have rest: "MapComma_loop (Suc i) cs (alterClause d t) b1 (rv1, errs1, r1, s1)
                = (b', rv', errs', r', s')"
    by (simp add: Let_def)
  have "grows b ?b0" by (simp add: grows_refl grows_Comma)
  with alterClause_props[OF f] Cons.IH[OF rest] show ?case
    by (auto intro: grows_trans column_step_trans)
qed

lemma alterTable_cases:
  obtains (failed) s1 where "batch_errors cs \<noteq> []"
      and "alterTable d t cs s = (Some (batch_error cs), s1)" and "column_step s s1"
  | (emitted) b' rv' s1 where "batch_errors cs = []"
      and "alterTable d t cs s =
            (None, append_change s1
               \<lparr>Cmd = Builder_String b',
                Source = ModifyTable t cs,
                Reverse = (if \<forall>c\<in>set cs. \<not> irreversible c then Builder_String rv' else []),
                Comment_of = ''modify '' @ strconv_Quote d (Table_Name (heap s1 t)) @ '' table''\<rparr>)"
      and "column_step s s1"
      and "grows (Builder_Table (Build ''ALTER TABLE'') (heap s t)) b'"
      and "grows (Builder_Table (Build ''ALTER TABLE'') (heap s t)) rv'"
proof -
  let ?b0 = "Builder_Table (Build ''ALTER TABLE'') (heap s t)"
  obtain b' rv' errs' r' s1
    where run: "MapComma_loop 0 cs (alterClause d t) ?b0 (Builder_Clone ?b0, [], True, s)
                  = (b', rv', errs', r', s1)"
    by (cases "MapComma_loop 0 cs (alterClause d t) ?b0 (Builder_Clone ?b0, [], True, s)") auto
  note props = alter_loop_props[OF run]
  have clone: "Builder_Clone ?b0 = ?b0" by (simp add: Builder_Clone_def)
  show ?thesis
  proof (cases "batch_errors cs = []")
    case True
    have "alterTable d t cs s =
            (None, append_change s1
               \<lparr>Cmd = Builder_String b',
                Source = ModifyTable t cs,
                Reverse = (if \<forall>c\<in>set cs. \<not> irreversible c then Builder_String rv' else []),
                Comment_of = ''modify '' @ strconv_Quote d (Table_Name (heap s1 t)) @ '' table''\<rparr>)"
      using run props True
      by (simp add: alterTable_def Builder_MapComma_def Let_def batch_errors_def)
    then show ?thesis using emitted[OF True] props clone by simp
  next
    case False
    have "alterTable d t cs s = (Some (batch_error cs), s1)"
      using run props False
      by (simp add: alterTable_def Builder_MapComma_def Let_def batch_errors_def batch_error_def)
    then show ?thesis using failed[OF False] props by simp
  qed
qed

text \<open>What \<open>alterTable\<close> does to the plan.\<close>

lemma alterTable_emits:
  assumes "alterTable d t cs s = (e, s')"
  shows "(batch_errors cs \<noteq> [] \<longrightarrow> e = Some (batch_error cs) \<and> Plan s' = Plan s)
       \<and> (batch_errors cs = [] \<longrightarrow> e = None \<and>
            (\<exists>m. Changes (Plan s') = Changes (Plan s) @ [m] \<and> Source m = ModifyTable t cs
                \<and> HasPrefix (Cmd m) ''ALTER TABLE''
                \<and> (Reverse m \<noteq> [] \<longleftrightarrow> (\<forall>x\<in>set cs. \<not> irreversible x))))"
proof (cases rule: alterTable_cases[of cs d t s])
  case (failed s1)
  with assms show ?thesis by (auto simp: column_step_def same_plan_def)
next
  case (emitted b' rv' s1)
  have "Builder_String rv' \<noteq> []"
    using ALTER_starts[OF emitted(5)] HasPrefix_nonempty by fastforce
  moreover have "Plan s1 = Plan s" using emitted(3) by (simp add: column_step_def same_plan_def)
  ultimately show ?thesis
    using assms emitted(1,2) ALTER_starts[OF emitted(4)]
    by (auto simp: append_change_def)
qed

subsection \<open>The reverse of a batch\<close>









subsection \<open>Table-level operations only append to the plan\<close>

lemma table_step_refl: "table_step s s"
  by (simp add: table_step_def heap_frame_refl)

lemma table_step_trans:
  assumes "table_step s s1" and "table_step s1 s2"
  shows "table_step s s2"
proof -
  obtain xs where xs: "Changes (Plan s1) = Changes (Plan s) @ xs"
    using assms(1) by (auto simp: table_step_def prefix_def)
  obtain ys where ys: "Changes (Plan s2) = Changes (Plan s1) @ ys"
    using assms(2) by (auto simp: table_step_def prefix_def)
  have "list_all (\<lambda>c. is_table_source (Source c)) xs"
    using assms(1) xs by (simp add: table_step_def)
  moreover have "list_all (\<lambda>c. is_table_source (Source c)) ys"
    using assms(2) ys by (simp add: table_step_def)
  ultimately show ?thesis
    using assms xs ys by (auto simp: table_step_def intro: heap_frame_trans)
qed

lemma column_table_step: "column_step s s' \<Longrightarrow> table_step s s'"
  by (simp add: column_step_def same_plan_def table_step_def)

lemma table_step_append:
  "is_table_source (Source c) \<Longrightarrow> table_step s (append_change s c)"
  by (simp add: table_step_def append_change_def heap_frame_refl)

lemma alterTable_step: "alterTable d t cs s = (e, s') \<Longrightarrow> table_step s s'"
proof (cases rule: alterTable_cases[of cs d t s])
  case (failed s1)
  assume "alterTable d t cs s = (e, s')"
  with failed show ?thesis by (simp add: column_table_step)
next
  case (emitted b' rv' s1)
  assume "alterTable d t cs s = (e, s')"
  with emitted(2) have "s' = append_change s1
               \<lparr>Cmd = Builder_String b',
                Source = ModifyTable t cs,
                Reverse = (if \<forall>c\<in>set cs. \<not> irreversible c then Builder_String rv' else []),
                Comment_of = ''modify '' @ strconv_Quote d (Table_Name (heap s1 t)) @ '' table''\<rparr>"
    by simp
  then show ?thesis
    using table_step_trans[OF column_table_step[OF emitted(3)] table_step_append] by simp
qed

lemma alter_each_step: "alter_each d t css s = (e, s') \<Longrightarrow> table_step s s'"
proof (induction css arbitrary: s)
  case Nil
  then show ?case by (simp add: table_step_refl)
next
  case (Cons cs css)
  show ?case
  proof (cases "cs = []")
    case True
    with Cons show ?thesis by simp
  next
    case False
    obtain e1 s1 where a: "alterTable d t cs s = (e1, s1)" by (cases "alterTable d t cs s")
    show ?thesis
    proof (cases e1)
      case None
      with Cons.prems False a have "alter_each d t css s1 = (e, s')" by simp
      from table_step_trans[OF alterTable_step[OF a] Cons.IH[OF this]] show ?thesis .
    next
      case (Some err)
      with Cons.prems False a have "s' = s1" by simp
      with alterTable_step[OF a] show ?thesis by simp
    qed
  qed
qed

lemma modifyTable_step: "modifyTable d t cs s = (e, s') \<Longrightarrow> table_step s s'"
  unfolding modifyTable_def
  by (auto split: sum.splits prod.splits simp: table_step_refl simp del: alter_each.simps
        dest: alter_each_step)

lemma MapComma_loop_rel:
  assumes step: "\<And>x b a b' a'. x \<in> set xs \<Longrightarrow> f x b a = (b', a') \<Longrightarrow> R a a'"
    and refl: "\<And>a. R a a"
    and trans: "\<And>a b c. R a b \<Longrightarrow> R b c \<Longrightarrow> R a c"
    and run: "MapComma_loop i xs f b a = (b', a')"
  shows "R a a'"
  using step run
proof (induction xs arbitrary: i b a)
  case Nil
  then show ?case using refl by simp
next
  case (Cons x xs)
  obtain b1 a1 where f: "f x (if i > 0 then Builder_Comma b else b) a = (b1, a1)"
    by (cases "f x (if i > 0 then Builder_Comma b else b) a")
  with Cons.prems(2) have rest: "MapComma_loop (Suc i) xs f b1 a1 = (b', a')"
    by (simp add: Let_def)
  have "R a a1" using Cons.prems(1)[of x, OF _ f] by simp
  moreover have "\<And>y b a b' a'. y \<in> set xs \<Longrightarrow> f y b a = (b', a') \<Longrightarrow> R a a'"
    using Cons.prems(1) by (meson list.set_intros(2))
  then have "R a1 a'" using rest by (rule Cons.IH)
  ultimately show ?case using trans by blast
qed

lemma addTable_body_step: "addTable_body d t b s = (b', s') \<Longrightarrow> column_step s s'"
proof -
  assume r: "addTable_body d t b s = (b', s')"
  obtain b1 s1 where m: "MapComma_loop 0 (Table_Columns (heap s t)) (\<lambda>c b. column d b t c) b s = (b1, s1)"
    by (cases "MapComma_loop 0 (Table_Columns (heap s t)) (\<lambda>c b. column d b t c) b s")
  have "column_step s s1"
    by (rule MapComma_loop_rel[OF _ column_step_refl column_step_trans m]) (rule column_step)
  moreover have "s' = s1" using r m by (simp add: addTable_body_def Builder_MapComma_def Let_def)
  ultimately show ?thesis by simp
qed

lemma Wrap_snd:
  assumes "Builder_Wrap b f a = (b', a')"
  obtains b1 where "f (WriteByte b (CHR ''('')) a = (b1, a')"
  using assms by (cases "f (WriteByte b (CHR ''('')) a") (auto simp: Builder_Wrap_def)

lemma addTable_step: "addTable d t extra s = (e, s') \<Longrightarrow> table_step s s'"
proof -
  assume r: "addTable d t extra s = (e, s')"
  let ?b = "Builder_Table (Build ''CREATE TABLE'') (heap s t)"
  let ?b1 = "if Has_IfNotExists extra then Builder_P ?b [''IF NOT EXISTS''] else ?b"
  obtain b2 s1 where w: "Builder_Wrap ?b1 (addTable_body d t) s = (b2, s1)"
    by (cases "Builder_Wrap ?b1 (addTable_body d t) s")
  then obtain b0 where "addTable_body d t (WriteByte ?b1 (CHR ''('')) s = (b0, s1)"
    by (rule Wrap_snd)
  then have cs: "table_step s s1" by (intro column_table_step addTable_body_step)
  obtain e1 b3 where ta: "tableAttr d b2 (Table_Attrs (heap s1 t)) = (e1, b3)"
    by (cases "tableAttr d b2 (Table_Attrs (heap s1 t))")
  show ?thesis
  proof (cases e1)
    case None
    with r w ta have "s' = append_change s1
                \<lparr>Cmd = Builder_String b3,
                 Source = AddTable t extra,
                 Reverse = Builder_String (Builder_Table (Build ''DROP TABLE'') (heap s1 t)),
                 Comment_of = ''create '' @ strconv_Quote d (Table_Name (heap s1 t)) @ '' table''\<rparr>"
      by (simp add: addTable_def Let_def)
    then show ?thesis using table_step_trans[OF cs table_step_append] by simp
  next
    case (Some err)
    with r w ta have "s' = s1" by (simp add: addTable_def Let_def)
    with cs show ?thesis by simp
  qed
qed

lemma dropTable_step: "table_step s (dropTable d t extra s)"
  unfolding dropTable_def Let_def by (rule table_step_append) simp

lemma plan_loop_step: "plan_loop d cs s = (e, s') \<Longrightarrow> table_step s s'"
proof (induction cs arbitrary: s)
  case Nil
  then show ?case by (simp add: table_step_refl)
next
  case (Cons c cs)
  show ?case
  proof (cases c)
    case (AddTable t extra)
    obtain e1 s1 where a: "addTable d t extra s = (e1, s1)" by (cases "addTable d t extra s")
    show ?thesis
    proof (cases e1)
      case None
      with Cons.prems AddTable a have "plan_loop d cs s1 = (e, s')" by simp
      from table_step_trans[OF addTable_step[OF a] Cons.IH[OF this]] show ?thesis .
    next
      case (Some err)
      with Cons.prems AddTable a addTable_step[OF a] show ?thesis by simp
    qed
  next
    case (DropTable t extra)
    with Cons.prems have "plan_loop d cs (dropTable d t extra s) = (e, s')" by simp
    from table_step_trans[OF dropTable_step Cons.IH[OF this]] show ?thesis .
  next
    case (ModifyTable t edits)
    obtain e1 s1 where a: "modifyTable d t edits s = (e1, s1)" by (cases "modifyTable d t edits s")
    show ?thesis
    proof (cases e1)
      case None
      with Cons.prems ModifyTable a have "plan_loop d cs s1 = (e, s')" by simp
      from table_step_trans[OF modifyTable_step[OF a] Cons.IH[OF this]] show ?thesis .
    next
      case (Some err)
      with Cons.prems ModifyTable a modifyTable_step[OF a] show ?thesis by simp
    qed
  qed (use Cons.prems in \<open>auto simp: table_step_refl\<close>)
qed

subsection \<open>The plan as a whole\<close>

lemma topLevel_loop_props:
  assumes "topLevel_loop d cs planned s = (planned', s')"
  shows "heap s' = heap s \<and> conn_of s' = conn_of s \<and> Name (Plan s') = Name (Plan s)
     \<and> Reversible (Plan s') = Reversible (Plan s)
     \<and> Transactional (Plan s') = Transactional (Plan s)
     \<and> planned' = planned @ filter (\<lambda>c. \<not> is_schema_change c) cs
     \<and> (\<exists>new. Changes (Plan s') = Changes (Plan s) @ new
            \<and> map Source new = filter is_schema_change cs
            \<and> list_all schema_reverse_ok new)"
  using assms
proof (induction cs arbitrary: planned s)
  case Nil
  then show ?case by simp
next
  case (Cons c cs)
  show ?case
  proof (cases "is_schema_change c")
    case False
    then have "topLevel_loop d (c # cs) planned s = topLevel_loop d cs (planned @ [c]) s"
      by (cases c) simp_all
    with Cons.prems have "topLevel_loop d cs (planned @ [c]) s = (planned', s')" by simp
    from Cons.IH[OF this] False show ?thesis by simp
  next
    case True
    then obtain m where run: "topLevel_loop d (c # cs) planned s
                                = topLevel_loop d cs planned (append_change s m)"
      and m: "Source m = c" "schema_reverse_ok m"
      by (cases c)
         (auto simp: Let_def schema_reverse_ok_def drop_database_String simp del: Builder_P.simps)
    with Cons.prems have "topLevel_loop d cs planned (append_change s m) = (planned', s')"
      by simp
    from Cons.IH[OF this] obtain new
      where "Changes (Plan s') = Changes (Plan (append_change s m)) @ new"
        and "map Source new = filter is_schema_change cs" and "list_all schema_reverse_ok new"
        and rest: "heap s' = heap s" "conn_of s' = conn_of s" "Name (Plan s') = Name (Plan s)"
          "Reversible (Plan s') = Reversible (Plan s)"
          "Transactional (Plan s') = Transactional (Plan s)"
          "planned' = planned @ filter (\<lambda>c. \<not> is_schema_change c) cs"
      by (auto simp: append_change_def)
    then have "Changes (Plan s') = Changes (Plan s) @ (m # new)
        \<and> map Source (m # new) = filter is_schema_change (c # cs)
        \<and> list_all schema_reverse_ok (m # new)"
      using True m by (simp add: append_change_def)
    then have "\<exists>new. Changes (Plan s') = Changes (Plan s) @ new
            \<and> map Source new = filter is_schema_change (c # cs)
            \<and> list_all schema_reverse_ok new"
      by (rule exI)
    then show ?thesis using rest True by simp
  qed
qed

text \<open>What \<open>plan\<close> leaves behind, whether it fails or not.\<close>

lemma plan_props:
  assumes "plan d changes s = (e, s')"
  shows "heap_frame (heap s) (heap s') \<and> Reversible (Plan s') = Reversible (Plan s)
     \<and> Name (Plan s') = Name (Plan s) \<and> Transactional (Plan s') = Transactional (Plan s)
     \<and> (\<exists>new tab. Changes (Plan s') = Changes (Plan s) @ new @ tab
            \<and> map Source new = filter is_schema_change changes
            \<and> list_all schema_reverse_ok new
            \<and> list_all (\<lambda>c. is_table_source (Source c)) tab)"
proof -
  obtain planned s1 where top: "topLevel_loop d changes [] s = (planned, s1)"
    by (cases "topLevel_loop d changes [] s")
  from topLevel_loop_props[OF top] obtain new
    where new: "Changes (Plan s1) = Changes (Plan s) @ new"
      "map Source new = filter is_schema_change changes" "list_all schema_reverse_ok new"
      and s1: "heap s1 = heap s" "Reversible (Plan s1) = Reversible (Plan s)"
        "Name (Plan s1) = Name (Plan s)" "Transactional (Plan s1) = Transactional (Plan s)"
    by blast
  have "table_step s1 s'"
  proof (cases "DetachCycles d planned")
    case (Inl err)
    with assms top have "s' = s1" by (simp add: plan_def topLevel_def)
    then show ?thesis by (simp add: table_step_refl)
  next
    case (Inr ordered)
    with assms top have "plan_loop d ordered s1 = (e, s')" by (simp add: plan_def topLevel_def)
    then show ?thesis by (rule plan_loop_step)
  qed
  then obtain tab where "Changes (Plan s') = Changes (Plan s1) @ tab"
    and "list_all (\<lambda>c. is_table_source (Source c)) tab"
    and "heap_frame (heap s1) (heap s')" "Reversible (Plan s') = Reversible (Plan s1)"
    "Name (Plan s') = Name (Plan s1)" "Transactional (Plan s') = Transactional (Plan s1)"
    by (auto simp: table_step_def prefix_def)
  with new s1 show ?thesis by auto
qed

lemma reversible_loop_eq: "reversible_loop cs r = (r \<and> (\<forall>c\<in>set cs. Reverse c \<noteq> []))"
  by (induction cs arbitrary: r) auto

lemma schema_result_Some: "fst schema_result \<noteq> None"
  unfolding schema_result_def schema_changes_def by code_simp

lemma schema_run:
  "PlanChanges sample_deps sample_conn sample_heap ''sample'' schema_changes
     = (Some (the (fst schema_result)), fst (snd schema_result), snd (snd schema_result))"
  using schema_result_Some by (auto simp: schema_result_def prod_eq_iff)

subsection \<open>The reversibility flag of a plan\<close>

text \<open>
  Claim C1. For every change list for which \<open>PlanChanges\<close> succeeds, the returned plan has
  \<open>Reversible\<close> set if and only if every change in its \<open>Changes\<close> has a non-empty
  \<open>Reverse\<close>: planning leaves the initial flag alone and the flag is recomputed from the
  emitted changes.
\<close>

theorem PlanChanges_reversible:
  assumes "PlanChanges d p h name changes = (Some pl, e, h')"
  shows "Reversible pl \<longleftrightarrow> (\<forall>c\<in>set (Changes pl). Reverse c \<noteq> [])"
proof -
  let ?s = "\<lparr>conn_of = p,
             Plan = \<lparr>Name = name, Reversible = True, Transactional = False, Changes = []\<rparr>,
             heap = h\<rparr>"
  obtain e1 s' where run: "plan d changes ?s = (e1, s')" by (cases "plan d changes ?s")
  with assms have pl: "pl = (Plan s')\<lparr>Reversible := reversible_loop (Changes (Plan s'))
                                             (Reversible (Plan s'))\<rparr>"
    by (cases e1) (auto simp: PlanChanges_def)
  have "Reversible (Plan s')" using plan_props[OF run] by simp
  then show ?thesis by (simp add: pl reversible_loop_eq)
qed

theorem PlanChanges_reversible_witness:
  "PlanChanges sample_deps sample_conn sample_heap ''sample'' schema_changes
     = (Some (the (fst schema_result)), fst (snd schema_result), snd (snd schema_result))
   \<and> (Reversible (the (fst schema_result))
        \<longleftrightarrow> (\<forall>c\<in>set (Changes (the (fst schema_result))). Reverse c \<noteq> []))"
  using PlanChanges_reversible[OF schema_run] schema_run by simp

subsection \<open>What planning writes to the tables\<close>



subsection \<open>The statements of schema changes\<close>

text \<open>
  Claim C10. In a plan that \<open>PlanChanges\<close> returns, the statements of the schema changes
  come first, one for each \<open>AddSchema\<close> and \<open>DropSchema\<close> of the input, in the order of
  the input. The statement of an \<open>AddSchema\<close> has the \<open>DROP DATABASE\<close> statement of
  that schema as its \<open>Reverse\<close>, which is not empty; the statement of a \<open>DropSchema\<close>
  has an empty \<open>Reverse\<close>, so a plan for changes with a \<open>DropSchema\<close> is not reversible.
\<close>

theorem schema_statements:
  assumes "PlanChanges d p h name changes = (Some pl, e, h')"
  shows "(\<exists>new tab. Changes pl = new @ tab
            \<and> map Source new = filter is_schema_change changes
            \<and> list_all schema_reverse_ok new
            \<and> list_all (\<lambda>c. is_table_source (Source c)) tab)
         \<and> (\<forall>sc. drop_database_text sc \<noteq> [] \<and> HasPrefix (drop_database_text sc) ''DROP DATABASE'')
         \<and> ((\<exists>sc extra. DropSchema sc extra \<in> set changes) \<longrightarrow> \<not> Reversible pl)"
proof -
  let ?s = "\<lparr>conn_of = p,
             Plan = \<lparr>Name = name, Reversible = True, Transactional = False, Changes = []\<rparr>,
             heap = h\<rparr>"
  obtain e1 s' where run: "plan d changes ?s = (e1, s')" by (cases "plan d changes ?s")
  with assms have pl: "pl = (Plan s')\<lparr>Reversible := reversible_loop (Changes (Plan s'))
                                             (Reversible (Plan s'))\<rparr>"
    by (cases e1) (auto simp: PlanChanges_def)
  from plan_props[OF run] obtain new tab
    where parts: "Changes pl = new @ tab" "map Source new = filter is_schema_change changes"
      "list_all schema_reverse_ok new" "list_all (\<lambda>c. is_table_source (Source c)) tab"
    by (auto simp: pl)
  have "\<not> Reversible pl" if "DropSchema sc extra \<in> set changes" for sc extra
  proof -
    from that have "DropSchema sc extra \<in> set (map Source new)" by (simp add: parts(2))
    then obtain m where m: "m \<in> set new" "Source m = DropSchema sc extra" by auto
    with parts(3) have "Reverse m = []" by (auto simp: list_all_iff schema_reverse_ok_def)
    with m(1) parts(1) have "\<exists>c\<in>set (Changes (Plan s')). Reverse c = []" by (auto simp: pl)
    then show ?thesis by (auto simp: pl reversible_loop_eq)
  qed
  moreover have "\<And>sc. drop_database_text sc \<noteq> [] \<and> HasPrefix (drop_database_text sc) ''DROP DATABASE''"
    by (simp add: drop_database_text_def HasPrefix_def)
  ultimately show ?thesis using parts by blast
qed

theorem schema_statements_witness:
  "PlanChanges sample_deps sample_conn sample_heap ''sample'' schema_changes
     = (Some (the (fst schema_result)), fst (snd schema_result), snd (snd schema_result))
   \<and> (\<exists>sc extra. DropSchema sc extra \<in> set schema_changes)
   \<and> \<not> Reversible (the (fst schema_result))"
proof -
  have "\<exists>sc extra. DropSchema sc extra \<in> set schema_changes"
    by (auto simp: schema_changes_def)
  with schema_statements[OF schema_run] schema_run show ?thesis by blast
qed

subsection \<open>What skipAutoChanges keeps\<close>

lemma take_remove:
  assumes "i < len" and "len \<le> length arr"
  shows "take (len - 1) (take i arr @ drop (i + 1) (take len arr) @ drop (len - 1) arr)
           = take i arr @ drop (i + 1) (take len arr)"
  using assms by (simp add: min_absorb2)

lemma take_split:
  assumes "i < len" and "len \<le> length arr"
  shows "take len arr = take i arr @ arr ! i # drop (i + 1) (take len arr)"
proof -
  have "i < length (take len arr)" using assms by simp
  from id_take_nth_drop[OF this] show ?thesis using assms by (simp add: min_absorb1)
qed

lemma skip_loop_keeps:
  assumes "skip_loop dropC n i arr len = Inr rem" and "len \<le> length arr" and "length arr = n"
  shows "filter (\<lambda>c. \<not> removable dropC c) rem
           = filter (\<lambda>c. \<not> removable dropC c) (take len arr)"
  using assms
proof (induction k \<equiv> "n - i" arbitrary: i arr len)
  case 0
  then show ?case by simp
next
  case (Suc k)
  then have in_range: "\<not> n \<le> i" and k: "k = n - (i + 1)" by simp_all
  show ?case
  proof (cases "removable dropC (arr ! i)")
    case True
    then obtain idx where idx: "arr ! i = DropIndex idx" "parts_dropped dropC (Index_Parts idx)"
      by (cases "arr ! i") auto
    with Suc.prems(1) in_range have nolen: "\<not> len < i + 1" by (auto split: if_splits)
    let ?arr = "take i arr @ drop (i + 1) (take len arr) @ drop (len - 1) arr"
    from Suc.prems(1) in_range idx nolen
    have run: "skip_loop dropC n (i + 1) ?arr (len - 1) = Inr rem" by simp
    have il: "i < len" using nolen by simp
    have len': "length ?arr = n" using il Suc.prems(2,3) by (simp add: min_absorb2)
    have "len - 1 \<le> length ?arr" using len' Suc.prems(2,3) by simp
    from Suc.hyps(1)[OF k run this len']
    have "filter (\<lambda>c. \<not> removable dropC c) rem
            = filter (\<lambda>c. \<not> removable dropC c) (take (len - 1) ?arr)" .
    also have "\<dots> = filter (\<lambda>c. \<not> removable dropC c) (take i arr @ drop (i + 1) (take len arr))"
      using take_remove[OF il Suc.prems(2)] by simp
    also have "\<dots> = filter (\<lambda>c. \<not> removable dropC c)
                       (take i arr @ arr ! i # drop (i + 1) (take len arr))"
      using True by simp
    also have "\<dots> = filter (\<lambda>c. \<not> removable dropC c) (take len arr)"
      using take_split[OF il Suc.prems(2)] by simp
    finally show ?thesis .
  next
    case False
    with Suc.prems(1) in_range have run: "skip_loop dropC n (i + 1) arr len = Inr rem"
      by (cases "arr ! i") (auto split: if_splits)
    from Suc.hyps(1)[OF k run Suc.prems(2,3)] show ?thesis .
  qed
qed

lemma skipAutoChanges_keeps:
  assumes "skipAutoChanges edits = Inr rem"
  shows "filter (\<lambda>c. \<not> removable (dropC_loop edits (\<lambda>_. False)) c) rem
           = filter (\<lambda>c. \<not> removable (dropC_loop edits (\<lambda>_. False)) c) edits"
  using skip_loop_keeps[OF assms[unfolded skipAutoChanges_def]] by simp

subsection \<open>The two buckets\<close>

lemma buckets_loop_eq:
  "buckets_loop d t cs (c0, c1) =
     (if list_ex is_DropAttr cs then Inl (Error ''unsupported change type: *schema.DropAttr'')
      else Inr (c0 @ concat (map (bucket0_of d t) cs), c1 @ concat (map bucket1_of cs)))"
proof (induction cs arbitrary: c0 c1)
  case Nil
  show ?case by simp
next
  case (Cons c cs)
  show ?case
  proof (cases "is_DropAttr c")
    case True
    then show ?thesis by (cases c) simp_all
  next
    case False
    then have "buckets_loop d t (c # cs) (c0, c1)
               = buckets_loop d t cs (c0 @ bucket0_of d t c, c1 @ bucket1_of c)"
      by (cases c) (simp_all add: Let_def)
    then show ?thesis using Cons.IH False by simp
  qed
qed

lemma bucket0_no_errors: "batch_errors (concat (map (bucket0_of d t) cs)) = []"
proof -
  have "attr_errors x = []" if "x \<in> set (bucket0_of d t c)" for x c
    using that by (cases c) (auto split: if_splits)
  then show ?thesis by (auto simp: batch_errors_def)
qed

lemma alter_each_emits:
  assumes "alter_each d t css s = (None, s')"
  shows "\<exists>new. Changes (Plan s') = Changes (Plan s) @ new
           \<and> map Source new = map (ModifyTable t) (filter (\<lambda>cs. cs \<noteq> []) css)
           \<and> list_all (\<lambda>m. HasPrefix (Cmd m) ''ALTER TABLE'') new"
  using assms
proof (induction css arbitrary: s)
  case Nil
  then show ?case by simp
next
  case (Cons cs css)
  show ?case
  proof (cases "cs = []")
    case True
    with Cons show ?thesis by simp
  next
    case False
    obtain e1 s1 where a: "alterTable d t cs s = (e1, s1)" by (cases "alterTable d t cs s")
    with Cons.prems False have e1: "e1 = None" and rest: "alter_each d t css s1 = (None, s')"
      by (auto split: option.splits)
    from alterTable_emits[OF a] e1 obtain m
      where m: "Changes (Plan s1) = Changes (Plan s) @ [m]" "Source m = ModifyTable t cs"
        "HasPrefix (Cmd m) ''ALTER TABLE''"
      by (cases "batch_errors cs = []") auto
    from Cons.IH[OF rest] obtain new
      where new: "Changes (Plan s') = Changes (Plan s1) @ new"
        "map Source new = map (ModifyTable t) (filter (\<lambda>cs. cs \<noteq> []) css)"
        "list_all (\<lambda>m. HasPrefix (Cmd m) ''ALTER TABLE'') new"
      by blast
    have "Changes (Plan s') = Changes (Plan s) @ (m # new)
           \<and> map Source (m # new) = map (ModifyTable t) (filter (\<lambda>cs. cs \<noteq> []) (cs # css))
           \<and> list_all (\<lambda>m. HasPrefix (Cmd m) ''ALTER TABLE'') (m # new)"
      using m new False by simp
    then show ?thesis by (rule exI)
  qed
qed

lemma alter_each_length:
  assumes "alter_each d t css s = (e, s')"
  shows "length (Changes (Plan s')) \<le> length (Changes (Plan s)) + length css"
  using assms
proof (induction css arbitrary: s)
  case Nil
  then show ?case by simp
next
  case (Cons cs css)
  show ?case
  proof (cases "cs = []")
    case True
    with Cons.prems have "alter_each d t css s = (e, s')" by simp
    from Cons.IH[OF this] show ?thesis by simp
  next
    case False
    obtain e1 s1 where a: "alterTable d t cs s = (e1, s1)" by (cases "alterTable d t cs s")
    have one: "length (Changes (Plan s1)) \<le> length (Changes (Plan s)) + 1"
      using alterTable_emits[OF a] by (cases "batch_errors cs = []") auto
    show ?thesis
    proof (cases e1)
      case None
      with Cons.prems False a have "alter_each d t css s1 = (e, s')" by simp
      from Cons.IH[OF this] one show ?thesis by simp
    next
      case (Some err)
      with Cons.prems False a have "s' = s1" by simp
      with one show ?thesis by simp
    qed
  qed
qed

lemma modifyTable_emits:
  assumes "modifyTable d t edits s = (e, s')"
  shows "length (Changes (Plan s')) \<le> length (Changes (Plan s)) + 2
       \<and> (e = None \<longrightarrow>
            (\<exists>remaining new. skipAutoChanges edits = Inr remaining
               \<and> Changes (Plan s') = Changes (Plan s) @ new
               \<and> map Source new = map (ModifyTable t) (batches d t remaining)
               \<and> list_all (\<lambda>m. HasPrefix (Cmd m) ''ALTER TABLE'') new))"
proof (cases "skipAutoChanges edits")
  case (Inl err)
  with assms show ?thesis by (auto simp: modifyTable_def)
next
  case (Inr remaining)
  show ?thesis
  proof (cases "list_ex is_DropAttr remaining")
    case True
    with assms Inr show ?thesis by (auto simp: modifyTable_def buckets_loop_eq)
  next
    case False
    let ?c0 = "concat (map (bucket0_of d t) remaining)"
    let ?c1 = "concat (map bucket1_of remaining)"
    from assms Inr False have run: "alter_each d t [?c0, ?c1] s = (e, s')"
      by (simp add: modifyTable_def buckets_loop_eq del: alter_each.simps)
    from alter_each_length[OF run]
    have "length (Changes (Plan s')) \<le> length (Changes (Plan s)) + 2" by simp
    moreover have "\<exists>new. Changes (Plan s') = Changes (Plan s) @ new
               \<and> map Source new = map (ModifyTable t) (batches d t remaining)
               \<and> list_all (\<lambda>m. HasPrefix (Cmd m) ''ALTER TABLE'') new" if "e = None"
      using alter_each_emits[of d t "[?c0, ?c1]" s s'] run that
      unfolding batches_def by simp
    ultimately show ?thesis using Inr by simp
  qed
qed





subsection \<open>The batches of a modification\<close>

text \<open>
  Claim C2. For every \<open>ModifyTable\<close> change, \<open>modifyTable\<close> appends at most two
  statements. When it succeeds, the statements are \<open>ALTER TABLE\<close> statements, one for
  each non-empty bucket of the edits that \<open>skipAutoChanges\<close> left, the statement of
  bucket 0 before that of bucket 1, each with its bucket as the batch it renders: a
  modified foreign key is a \<open>DropForeignKey\<close> in bucket 0 (with a \<open>DropIndex\<close> named
  after the old key when the referenced table or column changed) and an
  \<open>AddForeignKey\<close> in bucket 1, a modified index is a \<open>DropIndex\<close> in bucket 0 and an
  \<open>AddIndex\<close> in bucket 1, an index drop is in bucket 0 and every other edit in
  bucket 1.
\<close>

theorem modifyTable_batches:
  assumes "modifyTable d t edits s = (e, s')"
  shows "length (Changes (Plan s')) \<le> length (Changes (Plan s)) + 2
       \<and> (e = None \<longrightarrow>
            (\<exists>remaining new. skipAutoChanges edits = Inr remaining
               \<and> Changes (Plan s') = Changes (Plan s) @ new
               \<and> map Source new = map (ModifyTable t) (batches d t remaining)
               \<and> list_all (\<lambda>m. HasPrefix (Cmd m) ''ALTER TABLE'') new))"
  using assms by (rule modifyTable_emits)

theorem modifyTable_batches_witness:
  "modifyTable sample_deps 0 rebuild_edits sample_state
     = (None, snd (modifyTable sample_deps 0 rebuild_edits sample_state))
   \<and> length (Changes (Plan (snd (modifyTable sample_deps 0 rebuild_edits sample_state)))) \<le> 2
   \<and> (\<exists>remaining new. skipAutoChanges rebuild_edits = Inr remaining
          \<and> Changes (Plan (snd (modifyTable sample_deps 0 rebuild_edits sample_state))) = new
          \<and> map Source new = map (ModifyTable 0) (batches sample_deps 0 remaining)
          \<and> list_all (\<lambda>m. HasPrefix (Cmd m) ''ALTER TABLE'') new)"
proof -
  have "fst (modifyTable sample_deps 0 rebuild_edits sample_state) = None"
    unfolding rebuild_edits_def sample_c_def by code_simp
  then have run: "modifyTable sample_deps 0 rebuild_edits sample_state
     = (None, snd (modifyTable sample_deps 0 rebuild_edits sample_state))"
    by (simp add: prod_eq_iff)
  from modifyTable_batches[OF run] run show ?thesis by (simp add: sample_state_def)
qed

subsection \<open>The order of a dropped and an added foreign key\<close>





subsection \<open>Index drops that the database does itself\<close>

text \<open>
  Claim C5 fails on the code. Removing an index drop moves the later edits down in the
  array that the loop of \<open>skipAutoChanges\<close> goes on reading by index, so the edit after a
  removed one is never read: of two index drops in a row on the dropped column \<open>c\<close>, the
  second stays, and its \<open>DROP INDEX\<close> clause is emitted.
\<close>

theorem skipAutoChanges_misses:
  "skipAutoChanges elide_edits = Inr [DropIndex (idx_on ''i2'' [sample_c]), DropColumn sample_c]
   \<and> map Cmd (Changes (Plan (snd (modifyTable sample_deps 0 elide_edits sample_state))))
       = [''ALTER TABLE `users` DROP INDEX `i2`'', ''ALTER TABLE `users` DROP COLUMN `c`'']"
  unfolding elide_edits_def sample_c_def by code_simp

subsection \<open>Unsupported changes\<close>

lemma DropAttr_not_removable: "is_DropAttr c \<Longrightarrow> \<not> removable dropC c"
  by (cases c) simp_all

lemma DropAttr_filter:
  "filter is_DropAttr (filter (\<lambda>c. \<not> removable dropC c) cs) = filter is_DropAttr cs"
  by (induction cs) (auto simp: DropAttr_not_removable)

lemma list_ex_filter: "list_ex P xs \<longleftrightarrow> filter P xs \<noteq> []"
  by (induction xs) auto

lemma skipAutoChanges_DropAttr:
  assumes "skipAutoChanges edits = Inr remaining"
  shows "list_ex is_DropAttr remaining \<longleftrightarrow> list_ex is_DropAttr edits"
proof -
  let ?keep = "\<lambda>c. \<not> removable (dropC_loop edits (\<lambda>_. False)) c"
  have "filter is_DropAttr remaining = filter is_DropAttr (filter ?keep remaining)"
    by (simp only: DropAttr_filter)
  also have "\<dots> = filter is_DropAttr (filter ?keep edits)"
    using skipAutoChanges_keeps[OF assms] by simp
  also have "\<dots> = filter is_DropAttr edits" by (simp only: DropAttr_filter)
  finally show ?thesis by (simp add: list_ex_filter)
qed

lemma skip_loop_no_Error: "skip_loop dropC n i arr len \<noteq> Inl (Error m)"
proof (induction k \<equiv> "n - i" arbitrary: i arr len)
  case 0
  then show ?case by simp
next
  case (Suc k)
  then have "k = n - (i + 1)" "\<not> n \<le> i" by simp_all
  with Suc.hyps(1) show ?case
    by (cases "arr ! i") (auto split: if_splits)
qed

text \<open>
  Unless \<open>skipAutoChanges\<close> panics, a modification with a \<open>DropAttr\<close> edit is refused
  with an error and nothing is appended.
\<close>

lemma modifyTable_DropAttr:
  assumes "list_ex is_DropAttr edits"
  shows "modifyTable d t edits s = (Some (Error ''unsupported change type: *schema.DropAttr''), s)
       \<or> (\<exists>m. modifyTable d t edits s = (Some (Panic m), s))"
proof (cases "skipAutoChanges edits")
  case (Inl err)
  have "err \<noteq> Error m" for m
    using Inl skip_loop_no_Error unfolding skipAutoChanges_def by metis
  then have "\<exists>m. err = Panic m" by (cases err) auto
  with Inl show ?thesis by (auto simp: modifyTable_def)
next
  case (Inr remaining)
  with assms have "list_ex is_DropAttr remaining" by (simp add: skipAutoChanges_DropAttr)
  with Inr show ?thesis by (simp add: modifyTable_def buckets_loop_eq)
qed

text \<open>A plan is returned only for changes that the loop has a rule for.\<close>

lemma plan_loop_supported:
  "plan_loop d cs s = (None, s') \<Longrightarrow> list_all supported cs"
proof (induction cs arbitrary: s)
  case Nil
  show ?case by simp
next
  case (Cons c cs)
  show ?case
  proof (cases c)
    case (AddTable t extra)
    obtain e1 s1 where a: "addTable d t extra s = (e1, s1)" by (cases "addTable d t extra s")
    with Cons.prems AddTable have "plan_loop d cs s1 = (None, s')" by (auto split: option.splits)
    from Cons.IH[OF this] AddTable show ?thesis by simp
  next
    case (DropTable t extra)
    with Cons.prems Cons.IH[of "dropTable d t extra s"] show ?thesis by simp
  next
    case (ModifyTable t edits)
    obtain e1 s1 where a: "modifyTable d t edits s = (e1, s1)" by (cases "modifyTable d t edits s")
    with Cons.prems ModifyTable have e1: "e1 = None" and rest: "plan_loop d cs s1 = (None, s')"
      by (auto split: option.splits)
    have "\<not> list_ex is_DropAttr edits"
      using modifyTable_DropAttr[of edits d t s] a e1 by auto
    with Cons.IH[OF rest] ModifyTable show ?thesis by simp
  qed (use Cons.prems in auto)
qed

lemma panic_edits_skip:
  "skipAutoChanges panic_edits = Inl (Panic ''slice bounds out of range'')"
  unfolding panic_edits_def sample_c_def by code_simp

text \<open>
  Claim C7 fails on the code, by the same loop of \<open>skipAutoChanges\<close>. After a removal
  the slice is one shorter than the array, and the last element of the array is read
  again at the last index; when it is an index drop to remove, \<open>changes[i+1:]\<close> is out of
  range and the call panics. For a \<open>ModifyTable\<close> with a \<open>DropAttr\<close> edit, a dropped
  column and two drops of indexes on it at the end, \<open>PlanChanges\<close> panics: it returns
  no error.
\<close>

theorem PlanChanges_panics:
  "fst (PlanChanges sample_deps sample_conn sample_heap ''sample'' [ModifyTable 0 panic_edits])
     = None
   \<and> fst (snd (PlanChanges sample_deps sample_conn sample_heap ''sample''
                 [ModifyTable 0 panic_edits]))
     = Some (Panic ''slice bounds out of range'')
   \<and> list_ex is_DropAttr panic_edits"
  by (simp add: PlanChanges_def plan_def topLevel_def modifyTable_def panic_edits_skip
        sample_deps_def)
     (simp add: panic_edits_def)

subsection \<open>Attributes that cannot be rendered\<close>

lemma plan_loop_append:
  "plan_loop d pre s = (None, s1) \<Longrightarrow> plan_loop d (pre @ rest) s = plan_loop d rest s1"
proof (induction pre arbitrary: s)
  case Nil
  then show ?case by simp
next
  case (Cons c pre)
  show ?case
  proof (cases c)
    case (AddTable t extra)
    obtain e1 s0 where a: "addTable d t extra s = (e1, s0)" by (cases "addTable d t extra s")
    with Cons.prems AddTable have "e1 = None" and "plan_loop d pre s0 = (None, s1)"
      by (auto split: option.splits)
    with Cons.IH[of s0] a AddTable show ?thesis by simp
  next
    case (DropTable t extra)
    with Cons.prems Cons.IH[of "dropTable d t extra s"] show ?thesis by simp
  next
    case (ModifyTable t edits)
    obtain e1 s0 where a: "modifyTable d t edits s = (e1, s0)" by (cases "modifyTable d t edits s")
    with Cons.prems ModifyTable have "e1 = None" and "plan_loop d pre s0 = (None, s1)"
      by (auto split: option.splits)
    with Cons.IH[of s0] a ModifyTable show ?thesis by simp
  qed (use Cons.prems in auto)
qed

lemma modifyTable_attr_errors:
  assumes "skipAutoChanges edits = Inr remaining" and "\<not> list_ex is_DropAttr remaining"
    and "batch_errors (concat (map bucket1_of remaining)) \<noteq> []"
  shows "\<exists>s'. modifyTable d t edits s
                = (Some (batch_error (concat (map bucket1_of remaining))), s')"
proof -
  let ?c0 = "concat (map (bucket0_of d t) remaining)"
  let ?c1 = "concat (map bucket1_of remaining)"
  have "batch_errors [] = []" by (simp add: batch_errors_def)
  with assms(3) have c1: "?c1 \<noteq> []" by metis
  have run: "modifyTable d t edits s = alter_each d t [?c0, ?c1] s"
    using assms(1,2) by (simp add: modifyTable_def buckets_loop_eq del: alter_each.simps)
  have last: "\<exists>s'. alter_each d t [?c1] s0 = (Some (batch_error ?c1), s')" for s0
  proof -
    obtain e1 s1 where a: "alterTable d t ?c1 s0 = (e1, s1)" by (cases "alterTable d t ?c1 s0")
    from alterTable_emits[OF a] assms(3) have "e1 = Some (batch_error ?c1)" by simp
    with a c1 show ?thesis by simp
  qed
  show ?thesis
  proof (cases "?c0 = []")
    case True
    then have "alter_each d t [?c0, ?c1] s = alter_each d t [?c1] s" by simp
    with run last show ?thesis by simp
  next
    case False
    obtain e0 s0 where a: "alterTable d t ?c0 s = (e0, s0)" by (cases "alterTable d t ?c0 s")
    from alterTable_emits[OF a] have "e0 = None" by (simp add: bucket0_no_errors)
    with a False have "alter_each d t [?c0, ?c1] s = alter_each d t [?c1] s0" by simp
    with run last show ?thesis by simp
  qed
qed

text \<open>
  Claim C8. For every \<open>ALTER TABLE\<close> batch in which a table attribute cannot be rendered
  (an \<open>AddAttr\<close> of an \<open>AutoIncrement\<close> with the value zero is one), \<open>alterTable\<close> returns
  one error, made of all the rendering errors of the batch joined after \<open>alter table:\<close>,
  and leaves the plan as it was: the batch emits no change. Planning returns that error:
  when the loop of \<open>plan\<close> reaches a \<open>ModifyTable\<close> whose bucket 1 has such an error,
  \<open>PlanChanges\<close> returns it and no plan (bucket 0 holds no attribute edit).
\<close>

theorem batch_attr_errors:
  "(batch_errors cs \<noteq> [] \<longrightarrow>
      (\<exists>s'. alterTable d t cs s = (Some (batch_error cs), s') \<and> Plan s' = Plan s))
   \<and> (AddAttr (AutoIncrement 0) \<in> set cs \<longrightarrow> batch_errors cs \<noteq> [])
   \<and> (topLevel d changes
          \<lparr>conn_of = p,
           Plan = \<lparr>Name = name, Reversible = True, Transactional = False, Changes = []\<rparr>,
           heap = h\<rparr> = (planned, s1)
        \<and> DetachCycles d planned = Inr (pre @ ModifyTable t edits # post)
        \<and> plan_loop d pre s1 = (None, s2)
        \<and> skipAutoChanges edits = Inr remaining \<and> \<not> list_ex is_DropAttr remaining
        \<and> batch_errors (concat (map bucket1_of remaining)) \<noteq> []
      \<longrightarrow> (\<exists>h'. PlanChanges d p h name changes
                  = (None, Some (batch_error (concat (map bucket1_of remaining))), h')))"
proof (intro conjI impI)
  assume errs: "batch_errors cs \<noteq> []"
  obtain e s' where a: "alterTable d t cs s = (e, s')" by (cases "alterTable d t cs s")
  from alterTable_emits[OF a] errs a
  show "\<exists>s'. alterTable d t cs s = (Some (batch_error cs), s') \<and> Plan s' = Plan s" by simp
next
  assume "AddAttr (AutoIncrement 0) \<in> set cs"
  moreover have "attr_errors (AddAttr (AutoIncrement 0)) \<noteq> []" by simp
  ultimately show "batch_errors cs \<noteq> []"
    unfolding batch_errors_def by (auto simp del: attr_errors.simps)
next
  let ?s = "\<lparr>conn_of = p,
           Plan = \<lparr>Name = name, Reversible = True, Transactional = False, Changes = []\<rparr>,
           heap = h\<rparr>"
  let ?err = "batch_error (concat (map bucket1_of remaining))"
  assume hyp: "topLevel d changes ?s = (planned, s1)
        \<and> DetachCycles d planned = Inr (pre @ ModifyTable t edits # post)
        \<and> plan_loop d pre s1 = (None, s2)
        \<and> skipAutoChanges edits = Inr remaining \<and> \<not> list_ex is_DropAttr remaining
        \<and> batch_errors (concat (map bucket1_of remaining)) \<noteq> []"
  then obtain s' where m: "modifyTable d t edits s2 = (Some ?err, s')"
    using modifyTable_attr_errors[of edits remaining d t s2] by blast
  have "plan_loop d (pre @ ModifyTable t edits # post) s1
          = plan_loop d (ModifyTable t edits # post) s2"
    using hyp by (intro plan_loop_append) simp
  also have "\<dots> = (Some ?err, s')" using m by simp
  finally have "plan d changes ?s = (Some ?err, s')" using hyp by (simp add: plan_def)
  then show "\<exists>h'. PlanChanges d p h name changes = (None, Some ?err, h')"
    by (simp add: PlanChanges_def)
qed

lemma zero_edits_skip: "skipAutoChanges zero_edits = Inr zero_edits"
  unfolding zero_edits_def sample_c_def by code_simp

theorem batch_attr_errors_witness:
  "batch_errors zero_edits \<noteq> []
   \<and> AddAttr (AutoIncrement 0) \<in> set zero_edits
   \<and> batch_error zero_edits
       = Error ''alter table: add attribute: missing value for table option AUTO_INCREMENT''
   \<and> (\<exists>s'. alterTable sample_deps 0 zero_edits sample_state = (Some (batch_error zero_edits), s')
          \<and> Plan s' = Plan sample_state)
   \<and> (\<exists>h'. PlanChanges sample_deps sample_conn sample_heap ''sample'' [ModifyTable 0 zero_edits]
          = (None, Some (batch_error zero_edits), h'))"
proof -
  have e: "batch_errors zero_edits \<noteq> []" and m: "AddAttr (AutoIncrement 0) \<in> set zero_edits"
    and b1: "concat (map bucket1_of zero_edits) = zero_edits"
    and nd: "\<not> list_ex is_DropAttr zero_edits"
    by (simp_all add: zero_edits_def batch_errors_def)
  have t: "batch_error zero_edits
       = Error ''alter table: add attribute: missing value for table option AUTO_INCREMENT''"
    by (simp add: batch_error_def batch_errors_def zero_edits_def)
  let ?s = "\<lparr>conn_of = sample_conn,
           Plan = \<lparr>Name = ''sample'', Reversible = True, Transactional = False, Changes = []\<rparr>,
           heap = sample_heap\<rparr>"
  have top: "topLevel sample_deps [ModifyTable 0 zero_edits] ?s = ([ModifyTable 0 zero_edits], ?s)"
    by (simp add: topLevel_def)
  have det: "DetachCycles sample_deps [ModifyTable 0 zero_edits]
               = Inr ([] @ ModifyTable 0 zero_edits # [])"
    by (simp add: sample_deps_def)
  have pre: "plan_loop sample_deps [] ?s = (None, ?s)" by simp
  from batch_attr_errors[where cs = zero_edits and d = sample_deps and t = 0
      and s = sample_state and changes = "[ModifyTable 0 zero_edits]" and p = sample_conn
      and name = "''sample''" and h = sample_heap and planned = "[ModifyTable 0 zero_edits]"
      and ?s1.0 = ?s and pre = "[]" and edits = zero_edits and post = "[]" and ?s2.0 = ?s
      and remaining = zero_edits]
    e m b1 nd t top det pre zero_edits_skip
  show ?thesis by simp
qed

subsection \<open>The default value of a column\<close>

lemma time_typed_case: "(case t of TimeType x \<Rightarrow> True | _ \<Rightarrow> False) = time_typed t"
  by (cases t) simp_all

text \<open>
  Claim C6, as amended. \<open>columnDefault\<close> writes nothing for a column without default, and
  otherwise \<open>DEFAULT\<close> and the value by the rules in priority order: unquoted on a
  numeric-typed column; unquoted when the value looks hexadecimal; a raw expression that
  starts with \<open>(\<close> and ends with \<open>)\<close> is passed through; a raw expression on a time-typed
  column whose lower-case text starts with the current-timestamp token is passed through;
  every other value is quoted, and a value already quoted with single or double quotes is
  left as it is.
\<close>

theorem columnDefault_rules:
  "columnDefault d b c =
     (case Column_Default c of
        None \<Rightarrow> b
      | Some e \<Rightarrow> Builder_P b [''DEFAULT'', default_value d (Type_of (Column_Type c)) e])"
proof (cases "Column_Default c")
  case None
  then show ?thesis by (simp add: columnDefault_def)
next
  case (Some e)
  then show ?thesis
    by (cases e) (auto simp: columnDefault_def default_value_def quote_def Let_def time_typed_case)
qed

theorem columnDefault_rules_witness:
  "Buffer (columnDefault sample_deps (Build ''ADD COLUMN'') ts_column)
     = ''ADD COLUMN DEFAULT CURRENT_TIMESTAMP(6) ''
   \<and> default_value sample_deps (TimeType ''timestamp(6)'') (RawExpr ''CURRENT_TIMESTAMP(6)'')
     = ''CURRENT_TIMESTAMP(6)''"
proof -
  have v: "default_value sample_deps (TimeType ''timestamp(6)'') (RawExpr ''CURRENT_TIMESTAMP(6)'')
     = ''CURRENT_TIMESTAMP(6)''"
    by code_simp
  have "Buffer (Builder_P (Build ''ADD COLUMN'') [''DEFAULT'', ''CURRENT_TIMESTAMP(6)''])
          = ''ADD COLUMN DEFAULT CURRENT_TIMESTAMP(6) ''"
    by code_simp
  with columnDefault_rules[of sample_deps "Build ''ADD COLUMN''" ts_column] v
  show ?thesis by (simp add: ts_column_def col_def)
qed

text \<open>
  Claim C6 as stated fails: \<open>CURRENT_TIMESTAMP(6)\<close> is not the current-timestamp token, so
  by the claim it is quoted, and the code passes it through.
\<close>

theorem columnDefault_counterexample:
  "Buffer (columnDefault sample_deps (Build ''ADD COLUMN'') ts_column)
     = ''ADD COLUMN DEFAULT CURRENT_TIMESTAMP(6) ''
   \<and> claimed_default_value sample_deps (TimeType ''timestamp(6)'')
        (RawExpr ''CURRENT_TIMESTAMP(6)'')
     = [CHR 0x22] @ ''CURRENT_TIMESTAMP(6)'' @ [CHR 0x22]
   \<and> Buffer (columnDefault sample_deps (Build ''ADD COLUMN'') ts_column)
     \<noteq> Buffer (Builder_P (Build ''ADD COLUMN'')
                 [''DEFAULT'', claimed_default_value sample_deps (TimeType ''timestamp(6)'')
                                 (RawExpr ''CURRENT_TIMESTAMP(6)'')])"
  unfolding ts_column_def by code_simp

end
